theory Spec2Isabelle
  imports Complex_Main "HOL-Library.Sublist"
begin

section \<open>JavaScript strings and regular expressions\<close>

text \<open>
  The service module \<^verbatim>\<open>src/services/geminiService.ts\<close> works on JavaScript strings with
  \<^verbatim>\<open>String.prototype\<close> methods and regular-expression literals.  A string is modelled
  as a \<^typ>\<open>string\<close>, one \<^typ>\<open>char\<close> per code unit; code units above \<open>0xFF\<close> are outside
  the model.  Within that range the characters matched by \<^verbatim>\<open>\s\<close> and removed by
  \<^verbatim>\<open>trim()\<close> are TAB, LF, VT, FF, CR, SPACE and NBSP.
\<close>

definition is_space :: "char \<Rightarrow> bool" where
  "is_space c = (c = CHR 0x09 \<or> c = CHR 0x0A \<or> c = CHR 0x0B \<or> c = CHR 0x0C \<or>
                 c = CHR 0x0D \<or> c = CHR 0x20 \<or> c = CHR 0xA0)"

definition is_digit :: "char \<Rightarrow> bool" where
  "is_digit c = (c = CHR ''0'' \<or> c = CHR ''1'' \<or> c = CHR ''2'' \<or> c = CHR ''3'' \<or>
                 c = CHR ''4'' \<or> c = CHR ''5'' \<or> c = CHR ''6'' \<or> c = CHR ''7'' \<or>
                 c = CHR ''8'' \<or> c = CHR ''9'')"

text \<open>\<^verbatim>\<open>s.trim()\<close>\<close>

definition trim :: "string \<Rightarrow> string" where
  "trim s = rev (dropWhile is_space (rev (dropWhile is_space s)))"

text \<open>\<^verbatim>\<open>s.indexOf(pat)\<close>; \<open>None\<close> stands for the result \<open>-1\<close>.\<close>

fun indexOf :: "string \<Rightarrow> string \<Rightarrow> nat option" where
  "indexOf pat [] = (if pat = [] then Some 0 else None)"
| "indexOf pat (x # xs) =
     (if prefix pat (x # xs) then Some 0 else map_option Suc (indexOf pat xs))"

text \<open>\<^verbatim>\<open>s.includes(pat)\<close>\<close>

definition str_includes :: "string \<Rightarrow> string \<Rightarrow> bool" where
  "str_includes pat s = (indexOf pat s \<noteq> None)"

text \<open>
  \<^verbatim>\<open>s.replace(pat, rep)\<close> with a string pattern replaces the first occurrence only.
  (The replacement strings used by the module contain no \<^verbatim>\<open>$\<close>.)
\<close>

definition replace_first :: "string \<Rightarrow> string \<Rightarrow> string \<Rightarrow> string" where
  "replace_first pat rep s =
     (case indexOf pat s of
        None \<Rightarrow> s
      | Some k \<Rightarrow> take k s @ rep @ drop (k + length pat) s)"

subsection \<open>A backtracking matcher\<close>

text \<open>
  The regular expressions of the module use literals, the classes \<^verbatim>\<open>\s\<close>, \<^verbatim>\<open>\d\<close>,
  \<^verbatim>\<open>[^0-9]\<close>, \<^verbatim>\<open>[\s\S]\<close> and \<^verbatim>\<open>\n\<close>, alternation, greedy repetition \<^verbatim>\<open>c{n,}\<close> of a class
  (\<^verbatim>\<open>*\<close> is \<open>n = 0\<close>, \<^verbatim>\<open>+\<close> is \<open>n = 1\<close>), the lazy star \<^verbatim>\<open>c*?\<close> of a class and one capture
  group.
\<close>

datatype cclass = Whitespace | Digit | NonDigit | AnyChar | Newline

fun in_class :: "cclass \<Rightarrow> char \<Rightarrow> bool" where
  "in_class Whitespace c = is_space c"
| "in_class Digit c = is_digit c"
| "in_class NonDigit c = (\<not> is_digit c)"
| "in_class AnyChar c = True"
| "in_class Newline c = (c = CHR 0x0A)"

datatype regex =
    Lit string
  | Class cclass
  | Seq regex regex
  | Alt regex regex
  | Greedy nat cclass
  | Lazy cclass
  | Group regex

text \<open>
  Case folding of the \<^verbatim>\<open>i\<close> flag.  Without the \<^verbatim>\<open>u\<close> flag a character outside ASCII is
  never folded onto an ASCII one, and the literals of the module are ASCII, so folding the
  ASCII letters is all that can make a literal match.
\<close>

definition fold_case :: "char \<Rightarrow> char" where
  "fold_case c =
     (if 97 \<le> (of_char c :: nat) \<and> (of_char c :: nat) \<le> 122
      then char_of ((of_char c :: nat) - 32) else c)"

fun lit_prefix :: "bool \<Rightarrow> string \<Rightarrow> string \<Rightarrow> bool" where
  "lit_prefix ic [] s = True"
| "lit_prefix ic (p # ps) [] = False"
| "lit_prefix ic (p # ps) (x # xs) =
     ((if ic then fold_case p = fold_case x else p = x) \<and> lit_prefix ic ps xs)"

text \<open>
  The inputs left after \<^verbatim>\<open>c{n,}\<close>, in the order a backtracking matcher tries them: the
  longest run first, then one character less, down to \<open>n\<close> characters.
\<close>

fun greedy_rests :: "(char \<Rightarrow> bool) \<Rightarrow> nat \<Rightarrow> string \<Rightarrow> string list" where
  "greedy_rests c n [] = (if n = 0 then [[]] else [])"
| "greedy_rests c n (x # xs) =
     (if c x then greedy_rests c (n - 1) xs else []) @ (if n = 0 then [x # xs] else [])"

text \<open>The inputs left after \<^verbatim>\<open>c*?\<close>: the shortest run first.\<close>

fun lazy_rests :: "(char \<Rightarrow> bool) \<Rightarrow> string \<Rightarrow> string list" where
  "lazy_rests c [] = [[]]"
| "lazy_rests c (x # xs) = (x # xs) # (if c x then lazy_rests c xs else [])"

text \<open>
  A matcher state is the input still to be read and the text of capture group 1
  (\<open>None\<close> is JavaScript's \<^verbatim>\<open>undefined\<close>).  \<open>run ic r st\<close> lists every way \<open>r\<close> matches
  at the start of the input, in the order backtracking explores them; the head is the match
  JavaScript reports.
\<close>

type_synonym mstate = "string \<times> string option"

fun run :: "bool \<Rightarrow> regex \<Rightarrow> mstate \<Rightarrow> mstate list" where
  "run ic (Lit l) (s, g) = (if lit_prefix ic l s then [(drop (length l) s, g)] else [])"
| "run ic (Class k) (s, g) =
     (case s of [] \<Rightarrow> [] | x # xs \<Rightarrow> if in_class k x then [(xs, g)] else [])"
| "run ic (Seq a b) st = concat (map (run ic b) (run ic a st))"
| "run ic (Alt a b) st = run ic a st @ run ic b st"
| "run ic (Greedy n k) (s, g) = map (\<lambda>r. (r, g)) (greedy_rests (in_class k) n s)"
| "run ic (Lazy k) (s, g) = map (\<lambda>r. (r, g)) (lazy_rests (in_class k) s)"
| "run ic (Group a) (s, g) =
     map (\<lambda>(r, _). (r, Some (take (length s - length r) s))) (run ic a (s, g))"

text \<open>A match: its index, the matched text \<^verbatim>\<open>m[0]\<close>, group \<^verbatim>\<open>m[1]\<close> and the input after it.\<close>

record rmatch =
  m_index :: nat
  m_whole :: string
  m_group :: "string option"
  m_rest :: string

definition match_here :: "bool \<Rightarrow> regex \<Rightarrow> string \<Rightarrow> rmatch option" where
  "match_here ic r s =
     (case run ic r (s, None) of
        [] \<Rightarrow> None
      | (rest, g) # _ \<Rightarrow>
          Some \<lparr>m_index = 0, m_whole = take (length s - length rest) s,
                m_group = g, m_rest = rest\<rparr>)"

text \<open>\<^verbatim>\<open>s.match(r)\<close> for a regular expression without the \<^verbatim>\<open>g\<close> flag: the leftmost match.\<close>

fun regex_match :: "bool \<Rightarrow> regex \<Rightarrow> string \<Rightarrow> rmatch option" where
  "regex_match ic r [] = match_here ic r []"
| "regex_match ic r (x # xs) =
     (case match_here ic r (x # xs) of
        Some m \<Rightarrow> Some m
      | None \<Rightarrow> map_option (\<lambda>m. m\<lparr>m_index := Suc (m_index m)\<rparr>) (regex_match ic r xs))"

text \<open>
  \<^verbatim>\<open>s.replace(r, rep)\<close> for a regular expression with the \<^verbatim>\<open>g\<close> flag: every match, found
  left to right, each search starting where the previous match ended, is replaced; after
  an empty match the scan copies one character and goes on.
\<close>

fun regex_replace_all :: "bool \<Rightarrow> regex \<Rightarrow> string \<Rightarrow> string \<Rightarrow> string" where
  "regex_replace_all ic r rep s =
     (case match_here ic r s of
        None \<Rightarrow> (case s of [] \<Rightarrow> [] | x # xs \<Rightarrow> x # regex_replace_all ic r rep xs)
      | Some m \<Rightarrow>
          if length (m_rest m) < length s
          then rep @ regex_replace_all ic r rep (m_rest m)
          else rep @ (case s of [] \<Rightarrow> [] | x # xs \<Rightarrow> x # regex_replace_all ic r rep xs))"

section \<open>postProcessCode\<close>

text \<open>\<^verbatim>\<open>/```(?:pinescript|pine|)\s*([\s\S]*?)\s*```/i\<close>\<close>

definition codeBlockRegex :: regex where
  "codeBlockRegex =
     Seq (Lit ''```'')
      (Seq (Alt (Lit ''pinescript'') (Alt (Lit ''pine'') (Lit '''')))
        (Seq (Greedy 0 Whitespace)
          (Seq (Group (Lazy AnyChar))
            (Seq (Greedy 0 Whitespace) (Lit ''```'')))))"

text \<open>\<^verbatim>\<open>/\/\/@version=\d+\s*/g\<close>\<close>

definition versionTagRegex :: regex where
  "versionTagRegex = Seq (Lit ''//@version='') (Seq (Greedy 1 Digit) (Greedy 0 Whitespace))"

text \<open>\<^verbatim>\<open>/\n{3,}/g\<close>\<close>

definition blankRunRegex :: regex where
  "blankRunRegex = Greedy 3 Newline"

text \<open>\<^verbatim>\<open>version.replace(/[^0-9]/g, '')\<close>\<close>

definition versionDigits :: "string \<Rightarrow> string" where
  "versionDigits version = regex_replace_all False (Class NonDigit) '''' version"

text \<open>
  \<^verbatim>\<open>m[1]\<close> of a match of \<open>codeBlockRegex\<close>.  The group takes part in every match of that
  expression (\<open>codeBlock_group_defined\<close> below), so \<^verbatim>\<open>m[1]\<close> is never \<^verbatim>\<open>undefined\<close> and the
  second branch is never taken.
\<close>

definition group1 :: "rmatch \<Rightarrow> string" where
  "group1 m = (case m_group m of Some g \<Rightarrow> g | None \<Rightarrow> [])"

text \<open>Step 1 of \<^verbatim>\<open>postProcessCode\<close>: the first fenced block's text, trimmed, when there is one.\<close>

definition unfence :: "string \<Rightarrow> string" where
  "unfence rawText =
     (case regex_match True codeBlockRegex rawText of
        None \<Rightarrow> rawText
      | Some m \<Rightarrow> trim (group1 m))"

definition stripVersionTags :: "string \<Rightarrow> string" where
  "stripVersionTags s = regex_replace_all False versionTagRegex '''' s"

definition collapseBlankRuns :: "string \<Rightarrow> string" where
  "collapseBlankRuns s = regex_replace_all False blankRunRegex ''\<newline>\<newline>'' s"

definition postProcessCode :: "string \<Rightarrow> string \<Rightarrow> string" where
  "postProcessCode rawText version =
     (let cleanCode = unfence rawText;
          versionNum = versionDigits version;
          versionTag = ''//@version='' @ versionNum;
          cleanCode = stripVersionTags cleanCode;
          cleanCode = versionTag @ ''\<newline>'' @ cleanCode;
          cleanCode = collapseBlankRuns cleanCode
      in cleanCode)"

section \<open>Data model (\<^verbatim>\<open>src/types.ts\<close>)\<close>

datatype scriptKind = Indicator | Strategy

record PineScriptParams =
  prompt :: string
  scriptType :: scriptKind
  overlay :: bool
  version :: string
  model :: string
  customContext :: "string option"

record GeneratedResult =
  code :: string
  explanation :: string

text \<open>How a template literal prints a script type and a boolean.\<close>

fun scriptType_text :: "scriptKind \<Rightarrow> string" where
  "scriptType_text Indicator = ''indicator''"
| "scriptType_text Strategy = ''strategy''"

fun bool_text :: "bool \<Rightarrow> string" where
  "bool_text True = ''true''"
| "bool_text False = ''false''"

text \<open>\<^verbatim>\<open>toUpperCase()\<close>, applied by the module to the ASCII names of the script types only.\<close>

definition toUpperCase :: "string \<Rightarrow> string" where
  "toUpperCase s = map fold_case s"

section \<open>Pipeline constants\<close>

definition INSTITUTIONAL_GUIDELINES :: "string" where
  \<open>INSTITUTIONAL_GUIDELINES =
     ''\<newline>'' @
     ''ROLE: You are an Elite Quantitative Developer & Institutional Trader (CTA).\<newline>'' @
     ''YOUR GOAL: Create "Hedge Fund Grade" scripts. Never create "Retail" grade basic scripts unless explicitly asked to keep it simple.\<newline>'' @
     ''\<newline>'' @
     ''### EXPERT TRADING PHILOSOPHY (AUTO-APPLY THESE):\<newline>'' @
     ''1.  **Confluence is King**: Never trade on a single signal.\<newline>'' @
     ''    -   *Implicit Requirement*: If the user asks for "RSI Strategy", AUTOMATICALLY add a Trend Filter (e.g., EMA 200) and a Volatility Filter (e.g., ADX > 20 or ATR check) to filter out noise.\<newline>'' @
     ''2.  **Risk Management**:\<newline>'' @
     ''    -   Strategies MUST calculate position size dynamically or use ATR-based Stop Loss / Take Profit (Chandelier Exit logic) rather than fixed percentages.\<newline>'' @
     ''3.  **Visual Intelligence**:\<newline>'' @
     ''    -   Always draw a "Status Dashboard" (table) on the chart showing current trend, volatility state, and signal status.\<newline>'' @
     ''    -   Use professional, soft color palettes (e.g., teal/red with transparency), avoid neon defaults.\<newline>'' @
     ''4.  **Repainting Protection**:\<newline>'' @
     ''    -   Strictly forbid 'request.security' lookahead unless using 'barmerge.lookahead_off'.\<newline>'' @
     ''5.  **User Flexibility**:\<newline>'' @
     ''    -   Every parameter (Lengths, Sources, Multipliers, Colors, Dashboard location) MUST be an 'input()'.\<newline>''\<close>

definition QUALITY_CHECKS :: "string" where
  \<open>QUALITY_CHECKS =
     ''\<newline>'' @
     ''QUALITY CONTROL PIPELINE (Must pass all):\<newline>'' @
     ''1. [Syntax Check] Ensure all parentheses and brackets are balanced.\<newline>'' @
     ''2. [Version Check] Ensure the correct //@version tag (e.g., //@version=6) is the very first line.\<newline>'' @
     ''3. [Declaration Check] CRITICAL: Scripts must contain EXACTLY ONE declaration statement: "indicator()" OR "strategy()". NEVER use both.\<newline>'' @
     ''4. [Short Title Check] CRITICAL: The 'shorttitle' argument in the declaration MUST be 10 characters or less (e.g., shorttitle="Pro_RSI").\<newline>'' @
     ''5. [Repainting Check] If using request.security, ensure lookahead=barmerge.lookahead_on (or handle correctly) to avoid repainting.\<newline>'' @
     ''6. [Input Check] All adjustable parameters must use input().\<newline>'' @
     ''7. [Visualization Check] Strategy must have visual debug plots (plotshape for entries/exits).\<newline>''\<close>

definition SYNTAX_SAFETY_GUARD :: "string" where
  \<open>SYNTAX_SAFETY_GUARD =
     ''\<newline>'' @
     ''### SYNTAX SAFETY GUARD (CRITICAL PREVENTIONS):\<newline>'' @
     ''1. **The '=>' Operator**:\<newline>'' @
     ''   - **CORRECT USE**: ONLY in function definitions (e.g., `f() =>`) and `switch` structures.\<newline>'' @
     ''   - **INCORRECT USE**: NEVER use `=>` for variable assignment. Use `=` instead.\<newline>'' @
     ''   - **INCORRECT USE**: Do not use `=>` in 'if' statements or loops.\<newline>'' @
     ''2. **Function Definitions**:\<newline>'' @
     ''   - Ensure functions defined with `=>` have an indented body (4 spaces).\<newline>'' @
     ''   - Do NOT use the word `return`. The last expression in the block is the return value.\<newline>'' @
     ''3. **Indentation**: Pine Script is strictly whitespace-sensitive. Use 4 spaces for indentation.\<newline>'' @
     ''4. **Compatibility**: If generating for v6 and you are unsure of a new feature, use standard v5 syntax as it is forward-compatible.\<newline>''\<close>

section \<open>The completion service and the progress callback\<close>

text \<open>
  The remote generator is a collaborator: a function from the request to either a failure
  or the \<^verbatim>\<open>text\<close> of the response, which may be \<^verbatim>\<open>undefined\<close> (\<open>None\<close>).
\<close>

datatype part = TextPart string | InlineData string string

record request =
  req_model :: string
  req_parts :: "part list"
  req_temperature :: rat
  req_maxOutputTokens :: nat
  req_thinkingBudget :: "nat option"
  req_responseMimeType :: "string option"

text \<open>
  What a rejected promise carries: \<open>Thrown v\<close> is a value thrown by injected code and passed
  on unchanged, \<open>Error msg\<close> is \<^verbatim>\<open>new Error(msg)\<close> raised by the module itself.
\<close>

datatype failure = Thrown string | Error string

type_synonym service = "request \<Rightarrow> failure + string option"

text \<open>
  The progress callback is called with a status name; it returns (\<open>None\<close>) or throws
  (\<open>Some f\<close>).  \<open>notify\<close> is \<^verbatim>\<open>if (onStatusUpdate) onStatusUpdate(status)\<close>.
\<close>

type_synonym callback = "string \<Rightarrow> failure option"

definition notify :: "callback option \<Rightarrow> string \<Rightarrow> failure option" where
  "notify onStatusUpdate status =
     (case onStatusUpdate of None \<Rightarrow> None | Some f \<Rightarrow> f status)"

text \<open>\<^verbatim>\<open>response.text || dflt\<close>\<close>

definition text_or :: "string \<Rightarrow> string option \<Rightarrow> string" where
  "text_or dflt t = (case t of None \<Rightarrow> dflt | Some s \<Rightarrow> if s = [] then dflt else s)"

section \<open>Prompt assembly\<close>

text \<open>\<^verbatim>\<open>params.model || 'gemini-3-pro-preview'\<close> and \<^verbatim>\<open>model.includes('pro')\<close>\<close>

definition effectiveModel :: "PineScriptParams \<Rightarrow> string" where
  "effectiveModel params = (if model params = [] then ''gemini-3-pro-preview'' else model params)"

definition isExpertMode :: "PineScriptParams \<Rightarrow> bool" where
  "isExpertMode params = str_includes ''pro'' (effectiveModel params)"

text \<open>
  A system prompt is a template literal.  It is kept as the list of its pieces, each with
  the kind of policy fragment it carries; the prompt sent to the service is their
  concatenation.
\<close>

datatype fragment =
    Fixed
  | DomainGuidelines
  | QualityChecklist
  | SyntaxSafety
  | ArchitectureRules
  | SupplementalContext
  | RefinementRules

subsection \<open>Generation\<close>

definition generate_contextBlock :: "string \<Rightarrow> string" where
  \<open>generate_contextBlock ctx =
     ''\<newline>'' @
     ''    ### USER KNOWLEDGE BASE (PDF/CUSTOM CONTEXT)\<newline>'' @
     ''    The user has provided specific rules, logic, or text from a PDF. YOU MUST PRIORITIZE THIS INFORMATION.\<newline>'' @
     ''    If the PDF context conflicts with "Expert Trading Philosophy", follow the PDF context.\<newline>'' @
     ''    \<newline>'' @
     ''    [START OF PDF CONTEXT]\<newline>'' @
     ''    '' @
     ctx @
     ''\<newline>'' @
     ''    [END OF PDF CONTEXT]\<newline>'' @
     ''    ''\<close>

definition generate_customContextPrompt :: "PineScriptParams \<Rightarrow> string" where
  "generate_customContextPrompt params =
     (case customContext params of
        None \<Rightarrow> []
      | Some ctx \<Rightarrow> if ctx = [] then [] else generate_contextBlock ctx)"

definition generate_systemParts :: "PineScriptParams \<Rightarrow> (fragment \<times> string) list" where
  \<open>generate_systemParts params =
     [(Fixed,
        ''\<newline>'' @
        ''    You are "PineArchitect-v5", an Elite Quantitative Developer for TradingView.\<newline>'' @
        ''    \<newline>'' @
        ''    Current Task: Generate Production-Ready Pine Script '' @
        version params @
        ''.\<newline>'' @
        ''\<newline>'' @
        ''    ''),
      (DomainGuidelines,
        (if isExpertMode params then INSTITUTIONAL_GUIDELINES else [])),
      (Fixed,
        ''\<newline>'' @
        ''\<newline>'' @
        ''    ''),
      (QualityChecklist,
        QUALITY_CHECKS),
      (Fixed,
        ''\<newline>'' @
        ''    \<newline>'' @
        ''    ''),
      (SyntaxSafety,
        SYNTAX_SAFETY_GUARD),
      (Fixed,
        ''\<newline>'' @
        ''\<newline>'' @
        ''    ''),
      (ArchitectureRules,
        ''### ARCHITECTURE RULES\<newline>'' @
        ''    1. **Metadata**: Start with a detailed comment block (Strategy Name, Author, Logic).\<newline>'' @
        ''    2. **Inputs**: Use grouped inputs (group="Strategy Settings", group="Risk Management", group="UI Settings").\<newline>'' @
        ''    3. **Date Filter**: For strategies, ALWAYS add a "Backtest Time Period" input group to filter by date.\<newline>'' @
        ''    4. **Risk Management**:\<newline>'' @
        ''       - If Strategy: Implement 'strategy.exit' with ATR-based SL/TP inputs.\<newline>'' @
        ''       - If Indicator: Plot SL/TP levels based on the signal.\<newline>'' @
        ''    5. **Alerts**: Implement 'alertcondition' for every signal type.\<newline>'' @
        ''    6. **Style**: Use 'color.new()' for transparency. Use distinct colors for Buy (Green) and Sell (Red).\<newline>'' @
        ''    7. **Declaration**: Use ONLY '' @ [CHR 0x27] @
        scriptType_text (scriptType params) @
        [CHR 0x27] @ '' declaration. Ensure 'shorttitle' is <= 10 chars.''),
      (Fixed,
        ''\<newline>'' @
        ''\<newline>'' @
        ''    ''),
      (SupplementalContext,
        generate_customContextPrompt params),
      (Fixed,
        ''\<newline>'' @
        ''\<newline>'' @
        ''    ### OUTPUT FORMAT\<newline>'' @
        ''    Return a structured response:\<newline>'' @
        ''    [ANALYSIS]\<newline>'' @
        ''    Technical summary of the strategy logic. If Knowledge Base was provided, explicitly state how it was used (e.g., "Implemented custom MACD formula from user PDF").\<newline>'' @
        ''    \<newline>'' @
        ''    [CODE]\<newline>'' @
        ''    ```pinescript\<newline>'' @
        ''    //@version='' @
        versionDigits (version params) @
        ''\<newline>'' @
        ''    '' @
        scriptType_text (scriptType params) @
        ''("Title", shorttitle="Title<10", overlay='' @
        bool_text (overlay params) @
        '')\<newline>'' @
        ''    ...\<newline>'' @
        ''    ```\<newline>'' @
        ''  '')]\<close>

definition generate_systemPrompt :: "PineScriptParams \<Rightarrow> string" where
  "generate_systemPrompt params = concat (map snd (generate_systemParts params))"

definition generate_userPrompt :: "PineScriptParams \<Rightarrow> string" where
  \<open>generate_userPrompt params =
     ''\<newline>'' @
     ''    SCRIPT CONFIGURATION:\<newline>'' @
     ''    - Type: '' @
     toUpperCase (scriptType_text (scriptType params)) @
     ''\<newline>'' @
     ''    - Overlay: '' @
     bool_text (overlay params) @
     ''\<newline>'' @
     ''    - Mode: '' @
     (if isExpertMode params then ''INSTITUTIONAL / EXPERT'' else ''STANDARD'') @
     ''\<newline>'' @
     ''\<newline>'' @
     ''    USER REQUEST:\<newline>'' @
     ''    "'' @
     prompt params @
     ''"\<newline>'' @
     ''\<newline>'' @
     ''    EXECUTION INSTRUCTIONS:\<newline>'' @
     ''    1. Analyze the user request.\<newline>'' @
     ''    '' @
     (if isExpertMode params then ''2. "Pro-Upgrade": Even if the user asked for something simple, wrap it in a professional framework (Dashboard, Trend Filter, ATR Stops) unless they explicitly said "simple" OR unless the PDF Context forbids it.'' else ''2. Implement the logic as requested.'') @
     ''\<newline>'' @
     ''    3. Generate the code following Strict Coding Rules.\<newline>'' @
     ''    4. Validate against Quality Control Pipeline (Check ShortTitle length & Single Declaration).\<newline>'' @
     ''  ''\<close>

definition generate_request :: "PineScriptParams \<Rightarrow> request" where
  "generate_request params =
     \<lparr>req_model = effectiveModel params,
      req_parts = [TextPart (generate_systemPrompt params @ ''\<newline>\<newline>'' @ generate_userPrompt params)],
      req_temperature = 1 / 10,
      req_maxOutputTokens = 65536,
      req_thinkingBudget = (if isExpertMode params then Some 2048 else None),
      req_responseMimeType = None\<rparr>"

subsection \<open>Refinement\<close>

definition refine_contextBlock :: "string \<Rightarrow> string" where
  \<open>refine_contextBlock ctx =
     ''\<newline>'' @
     ''  ### ORIGINAL KNOWLEDGE BASE (CONTEXT)\<newline>'' @
     ''  The original script was built using these rules. MAINTAIN COMPLIANCE with them unless instructed otherwise:\<newline>'' @
     ''  '' @
     ctx @
     ''\<newline>'' @
     ''  ''\<close>

definition refine_customContextPrompt :: "PineScriptParams \<Rightarrow> string" where
  "refine_customContextPrompt params =
     (case customContext params of
        None \<Rightarrow> []
      | Some ctx \<Rightarrow> if ctx = [] then [] else refine_contextBlock ctx)"

definition refine_systemParts :: "PineScriptParams \<Rightarrow> (fragment \<times> string) list" where
  \<open>refine_systemParts params =
     [(Fixed,
        ''\<newline>'' @
        ''    You are a Pine Script Refinement Specialist (Expert Level).\<newline>'' @
        ''    Your task is to EDIT the provided Pine Script based on the user's instruction.\<newline>'' @
        ''\<newline>'' @
        ''    ''),
      (QualityChecklist,
        QUALITY_CHECKS),
      (Fixed,
        ''\<newline>'' @
        ''    ''),
      (DomainGuidelines,
        (if isExpertMode params then INSTITUTIONAL_GUIDELINES else [])),
      (Fixed,
        ''\<newline>'' @
        ''    ''),
      (SyntaxSafety,
        SYNTAX_SAFETY_GUARD),
      (Fixed,
        ''\<newline>'' @
        ''    ''),
      (SupplementalContext,
        refine_customContextPrompt params),
      (Fixed,
        ''\<newline>'' @
        ''\<newline>'' @
        ''    ''),
      (RefinementRules,
        ''### RULES FOR REFINEMENT (CRITICAL):\<newline>'' @
        ''    1. **FULL CODE REQUIRED**: You MUST output the ENTIRE script code, from '//@version=' to the last line. \<newline>'' @
        ''       - DO NOT output "snippets" or "changed parts only".\<newline>'' @
        ''       - DO NOT use placeholders like "// ... rest of code ...".\<newline>'' @
        ''       - The user needs to copy-paste the WHOLE file.\<newline>'' @
        ''    2. **Maintain Logic**: Keep existing logic unless explicitly asked to change it.\<newline>'' @
        ''    3. **Compilability**: Ensure the resulting code is valid and compilable.\<newline>'' @
        ''    4. **Short Titles**: Ensure 'shorttitle' remains <= 10 characters.\<newline>'' @
        ''    5. **Dashboard**: If the script has a Dashboard/Table, ensure it remains in the code.''),
      (Fixed,
        ''\<newline>'' @
        ''\<newline>'' @
        ''    ### OUTPUT FORMAT\<newline>'' @
        ''    [ANALYSIS]\<newline>'' @
        ''    Brief summary of changes.\<newline>'' @
        ''    \<newline>'' @
        ''    [CODE]\<newline>'' @
        ''    ```pinescript\<newline>'' @
        ''    //@version='' @
        versionDigits (version params) @
        ''\<newline>'' @
        ''    ... (FULL UPDATED CODE HERE) ...\<newline>'' @
        ''    ```\<newline>'' @
        ''  '')]\<close>




text \<open>
  The policy fragments of a prompt, in the order they appear: the kinds of the pieces that
  carry a fragment and are not empty.
\<close>

definition policy_order :: "(fragment \<times> string) list \<Rightarrow> fragment list" where
  "policy_order ps = map fst (filter (\<lambda>(k, t). k \<noteq> Fixed \<and> t \<noteq> []) ps)"

section \<open>Extraction of code and explanation\<close>

text \<open>\<^verbatim>\<open>/\[ANALYSIS\]|\[CODE\]/g\<close>\<close>

definition sectionMarkerRegex :: regex where
  "sectionMarkerRegex = Alt (Lit ''[ANALYSIS]'') (Lit ''[CODE]'')"

text \<open>
  \<^verbatim>\<open>text.replace(m[0], '').trim()\<close>, then
  \<^verbatim>\<open>.replace(/\[ANALYSIS\]|\[CODE\]/g, '').trim()\<close>
\<close>

definition stripSectionMarkers :: "string \<Rightarrow> string" where
  "stripSectionMarkers s = regex_replace_all False sectionMarkerRegex [] s"

definition fencedExplanation :: "string \<Rightarrow> rmatch \<Rightarrow> string" where
  "fencedExplanation text m =
     trim (stripSectionMarkers (trim (replace_first (m_whole m) [] text)))"

text \<open>The parse block of \<^verbatim>\<open>generatePineScript\<close> (lines 180 to 197).\<close>

definition generate_extract :: "string \<Rightarrow> GeneratedResult" where
  "generate_extract text =
     (case regex_match True codeBlockRegex text of
        Some codeBlockMatch \<Rightarrow>
          \<lparr>code = group1 codeBlockMatch, explanation = fencedExplanation text codeBlockMatch\<rparr>
      | None \<Rightarrow>
          (case indexOf ''//@version='' text of
             Some versionIdx \<Rightarrow> \<lparr>code = drop versionIdx text, explanation = take versionIdx text\<rparr>
           | None \<Rightarrow> \<lparr>code = ''// Error: Could not parse code block.'', explanation = text\<rparr>))"


section \<open>generatePineScript\<close>

text \<open>
  The body of the \<^verbatim>\<open>try\<close> block: two notifications, the request, a third notification,
  extraction and post-processing.  Whatever is thrown inside is replaced by the
  \<^verbatim>\<open>catch\<close> of \<open>generatePineScript\<close>.
\<close>

definition generate_try ::
  "service \<Rightarrow> PineScriptParams \<Rightarrow> callback option \<Rightarrow> failure + GeneratedResult" where
  "generate_try ai params onStatusUpdate =
     (case notify onStatusUpdate ''OPTIMIZING_LOGIC'' of
        Some e \<Rightarrow> Inl e
      | None \<Rightarrow>
     (case notify onStatusUpdate ''GENERATING_CODE'' of
        Some e \<Rightarrow> Inl e
      | None \<Rightarrow>
     (case ai (generate_request params) of
        Inl e \<Rightarrow> Inl e
      | Inr response_text \<Rightarrow>
     (case notify onStatusUpdate ''VALIDATING_OUTPUT'' of
        Some e \<Rightarrow> Inl e
      | None \<Rightarrow>
          (let text = text_or [] response_text;
               parsed = generate_extract text;
               processedCode = postProcessCode (code parsed) (version params)
           in Inr \<lparr>code = processedCode, explanation = explanation parsed\<rparr>)))))"

definition generatePineScript ::
  "service \<Rightarrow> PineScriptParams \<Rightarrow> callback option \<Rightarrow> failure + GeneratedResult" where
  "generatePineScript ai params onStatusUpdate =
     (case notify onStatusUpdate ''NORMALIZING_REQUEST'' of
        Some e \<Rightarrow> Inl e
      | None \<Rightarrow>
          (case generate_try ai params onStatusUpdate of
             Inl error \<Rightarrow> Inl (Error ''Pipeline Error: Failed to generate valid script.'')
           | Inr result \<Rightarrow> Inr result))"

section \<open>refinePineScript\<close>


section \<open>enhancePrompt\<close>

text \<open>The second parameter, \<^verbatim>\<open>_model\<close> in the source, is written \<open>ignored_model\<close>.\<close>

definition enhance_systemPrompt :: "string" where
  \<open>enhance_systemPrompt =
     ''\<newline>'' @
     ''      You are a Senior Pine Script Architect assisting a trader.\<newline>'' @
     ''      Your goal is to refine the user's raw input into a **Structured Requirement Specification** for coding.\<newline>'' @
     ''      \<newline>'' @
     ''      CRITICAL RULES:\<newline>'' @
     ''      1. **Preserve Intent**: Do not change the user's core strategy idea. Only clarify it.\<newline>'' @
     ''      2. **Structure**: Format the output clearly with headers like "LOGIC:", "CONDITIONS:", "FILTERS:", "VISUALS:".\<newline>'' @
     ''      3. **Technical Precision**: Replace vague terms with technical Pine Script concepts (e.g., "stop loss" -> "ATR-based Stop Loss or % Trailing Stop").\<newline>'' @
     ''      4. **Language**: STRICTLY output in the SAME LANGUAGE as the input (Turkish -> Turkish, English -> English).\<newline>'' @
     ''      5. **No Filler**: Return ONLY the new prompt text. No "Here is the improved version" prefix.\<newline>'' @
     ''      6. **Don't Over-Engineer**: If the user asks for a simple RSI, keep it simple but precise. Don't add unrelated indicators randomly.\<newline>'' @
     ''    ''\<close>

definition enhance_userPrompt :: "string \<Rightarrow> string" where
  \<open>enhance_userPrompt inputText =
     ''\<newline>'' @
     ''      RAW INPUT: "'' @
     inputText @
     ''"\<newline>'' @
     ''      \<newline>'' @
     ''      REFINED SPECIFICATION:\<newline>'' @
     ''    ''\<close>

definition enhance_request :: "string \<Rightarrow> string \<Rightarrow> request" where
  "enhance_request inputText ignored_model =
     (let effectiveModel = ''gemini-3-pro-preview''
      in \<lparr>req_model = effectiveModel,
          req_parts = [TextPart (enhance_systemPrompt @ ''\<newline>\<newline>'' @ enhance_userPrompt inputText)],
          req_temperature = 3 / 10,
          req_maxOutputTokens = 2048,
          req_thinkingBudget = None,
          req_responseMimeType = None\<rparr>)"

text \<open>
  \<^verbatim>\<open>return response.text?.trim() || inputText\<close>, and \<^verbatim>\<open>inputText\<close> again when the call
  fails.  The function never rejects.
\<close>

definition enhancePrompt :: "service \<Rightarrow> string \<Rightarrow> string \<Rightarrow> string" where
  "enhancePrompt ai inputText ignored_model =
     (case ai (enhance_request inputText ignored_model) of
        Inl error \<Rightarrow> inputText
      | Inr response_text \<Rightarrow> text_or inputText (map_option trim response_text))"

section \<open>extractStrategyFromPdf\<close>

definition pdf_systemPrompt :: "string" where
  \<open>pdf_systemPrompt =
     ''\<newline>'' @
     ''    You are a Financial Document Analyst and Pine Script Architect.\<newline>'' @
     ''    Your task is to READ the attached PDF document, UNDERSTAND the trading logic, and PREPARE a detailed prompt for a coder.\<newline>'' @
     ''\<newline>'' @
     ''    TASKS:\<newline>'' @
     ''    1. **Classify**: Is this described system a 'strategy' (has clear buy/sell execution rules with backtesting intent) or an 'indicator' (visualization only)?\<newline>'' @
     ''    2. **Overlay**: Should this script be overlaid on the price chart (true) or appear in a separate pane (false)? \<newline>'' @
     ''       - Strategies are usually overlay=true.\<newline>'' @
     ''       - Oscillators (RSI, MACD) are overlay=false.\<newline>'' @
     ''       - Moving Averages/Bollinger Bands are overlay=true.\<newline>'' @
     ''    3. **Draft Prompt**: Write a highly detailed, professional prompt that describes exactly how to code this script. \<newline>'' @
     ''       - Include all formulas, conditions, inputs, and colors mentioned in the PDF.\<newline>'' @
     ''       - Do NOT use markdown in the prompt text itself (it will be placed in a text box).\<newline>'' @
     ''\<newline>'' @
     ''    OUTPUT FORMAT (JSON ONLY):\<newline>'' @
     ''    {\<newline>'' @
     ''      "scriptType": "strategy" OR "indicator",\<newline>'' @
     ''      "overlay": true OR false,\<newline>'' @
     ''      "generatedPrompt": "Full detailed instruction text here..."\<newline>'' @
     ''    }\<newline>'' @
     ''  ''\<close>

definition pdf_request :: "string \<Rightarrow> request" where
  "pdf_request pdfBase64 =
     \<lparr>req_model = ''gemini-3-flash-preview'',
      req_parts = [TextPart pdf_systemPrompt, InlineData ''application/pdf'' pdfBase64],
      req_temperature = 1 / 10,
      req_maxOutputTokens = 8192,
      req_thinkingBudget = None,
      req_responseMimeType = Some ''application/json''\<rparr>"

text \<open>
  A value produced by \<^verbatim>\<open>JSON.parse\<close>.  An object is the list of its properties, each key
  once.  \<^verbatim>\<open>JSON.parse\<close> itself is a parameter of the model: a function from the text to
  the value, \<open>None\<close> when it throws a SyntaxError.
\<close>

datatype json =
    JNull
  | JBool bool
  | JNum rat
  | JStr string
  | JArr "json list"
  | JObj "(string \<times> json) list"

type_synonym json_parser = "string \<Rightarrow> json option"

text \<open>\<^verbatim>\<open>!v\<close> is false for a truthy value.\<close>

fun truthy :: "json \<Rightarrow> bool" where
  "truthy JNull = False"
| "truthy (JBool b) = b"
| "truthy (JNum n) = (n \<noteq> 0)"
| "truthy (JStr s) = (s \<noteq> [])"
| "truthy (JArr xs) = True"
| "truthy (JObj ps) = True"

text \<open>
  The object returned to the caller, read at the three fields of \<^verbatim>\<open>PdfAnalysisResult\<close>.
  The cast \<^verbatim>\<open>as PdfAnalysisResult\<close> checks nothing, so a field holds whatever JSON value
  the response had there.
\<close>

record PdfAnalysisResult =
  r_scriptType :: json
  r_overlay :: json
  r_generatedPrompt :: json

text \<open>\<^verbatim>\<open>if (!result.f) result.f = dflt\<close> on the properties \<open>ps\<close> of an object.\<close>

definition default_if_falsy :: "(string \<times> json) list \<Rightarrow> string \<Rightarrow> json \<Rightarrow> json" where
  "default_if_falsy ps f dflt =
     (case map_of ps f of
        None \<Rightarrow> dflt
      | Some v \<Rightarrow> if truthy v then v else dflt)"

text \<open>\<^verbatim>\<open>if (typeof result.overlay !== 'boolean') result.overlay = true\<close>\<close>

definition default_if_not_boolean :: "(string \<times> json) list \<Rightarrow> string \<Rightarrow> json" where
  "default_if_not_boolean ps f =
     (case map_of ps f of
        Some (JBool b) \<Rightarrow> JBool b
      | _ \<Rightarrow> JBool True)"

definition fallback_validation :: "(string \<times> json) list \<Rightarrow> PdfAnalysisResult" where
  "fallback_validation ps =
     \<lparr>r_scriptType = default_if_falsy ps ''scriptType'' (JStr ''indicator''),
      r_overlay = default_if_not_boolean ps ''overlay'',
      r_generatedPrompt =
        default_if_falsy ps ''generatedPrompt'' (JStr ''Failed to extract prompt from PDF.'')\<rparr>"

text \<open>
  The three statements of the fallback validation on a parsed value; \<open>None\<close> is a TypeError.
  Reading a property of \<^verbatim>\<open>null\<close> throws.  A number, a string or a boolean has none of the
  three properties, so the first test succeeds and the assignment to a property of a
  primitive throws (the module is an ES module, hence strict code).  An array is an object
  without the three properties.
\<close>

fun validate :: "json \<Rightarrow> PdfAnalysisResult option" where
  "validate (JObj ps) = Some (fallback_validation ps)"
| "validate (JArr xs) = Some (fallback_validation [])"
| "validate JNull = None"
| "validate (JBool b) = None"
| "validate (JNum n) = None"
| "validate (JStr s) = None"

text \<open>The inner \<^verbatim>\<open>try\<close>/\<^verbatim>\<open>catch\<close> (lines 433 to 449).\<close>

definition parseAnalysis :: "json_parser \<Rightarrow> string \<Rightarrow> PdfAnalysisResult" where
  "parseAnalysis JSON_parse text =
     (let onError =
            \<lparr>r_scriptType = JStr ''indicator'',
             r_overlay = JBool True,
             r_generatedPrompt =
               JStr ''Error parsing PDF analysis. The AI processed the file but returned invalid JSON.''\<rparr>
      in case JSON_parse text of
           None \<Rightarrow> onError
         | Some result \<Rightarrow> (case validate result of None \<Rightarrow> onError | Some r \<Rightarrow> r))"

definition extractStrategyFromPdf ::
  "service \<Rightarrow> json_parser \<Rightarrow> string \<Rightarrow> string \<Rightarrow> failure + PdfAnalysisResult" where
  "extractStrategyFromPdf ai JSON_parse pdfBase64 fileName =
     (case ai (pdf_request pdfBase64) of
        Inl error \<Rightarrow> Inl (Error ''Failed to analyze PDF. Please ensure the file is valid.'')
      | Inr response_text \<Rightarrow> Inr (parseAnalysis JSON_parse (text_or ''{}'' response_text)))"

section \<open>Auxiliary notions and example inputs\<close>

text \<open>Supplemental context counts as provided when \<^verbatim>\<open>params.customContext\<close> is truthy.\<close>

definition supplied :: "PineScriptParams \<Rightarrow> bool" where
  "supplied params = (case customContext params of None \<Rightarrow> False | Some ctx \<Rightarrow> ctx \<noteq> [])"

text \<open>The object returned by the \<^verbatim>\<open>catch\<close> of the inner \<^verbatim>\<open>try\<close>.\<close>

definition parse_error_result :: PdfAnalysisResult where
  "parse_error_result =
     \<lparr>r_scriptType = JStr ''indicator'', r_overlay = JBool True,
      r_generatedPrompt =
        JStr ''Error parsing PDF analysis. The AI processed the file but returned invalid JSON.''\<rparr>"

definition example_params :: PineScriptParams where
  "example_params =
     \<lparr>prompt = ''RSI strategy'', scriptType = Strategy, overlay = True, version = ''v6'',
      model = ''gemini-3-pro-preview'', customContext = None\<rparr>"

definition fenced_service :: service where
  "fenced_service req = Inr (Some ''```pinescript\<newline>plot(close)\<newline>```'')"

definition quiet_callback :: callback where
  "quiet_callback status = None"

definition failing_callback :: "string \<Rightarrow> callback" where
  "failing_callback stage status =
     (if status = stage then Some (Thrown ''render failed'') else None)"

text \<open>What \<^verbatim>\<open>JSON.parse\<close> returns on a few texts.\<close>

definition example_parser :: json_parser where
  \<open>example_parser text =
     (if text = ''{"scriptType": 42}'' then Some (JObj [(''scriptType'', JNum 42)])
      else if text = ''{"overlay": false, "generatedPrompt": "Plot RSI"}''
        then Some (JObj [(''overlay'', JBool False), (''generatedPrompt'', JStr ''Plot RSI'')])
      else if text = ''{}'' then Some (JObj [])
      else if text = ''null'' then Some JNull
      else None)\<close>

text \<open>
  A version declaration, as \<open>versionTagRegex\<close> matches it, starts at the head of \<open>s\<close>: the
  marker followed by a digit.  \<open>after_decl s\<close> is the input left after the match.
\<close>

definition decl_at :: "string \<Rightarrow> bool" where
  "decl_at s = (prefix ''//@version='' s \<and> (case drop (length ''//@version='') s of [] \<Rightarrow> False | d # _ \<Rightarrow> is_digit d))"

definition after_decl :: "string \<Rightarrow> string" where
  "after_decl s = dropWhile is_space (dropWhile is_digit (drop (length ''//@version='') s))"

text \<open>The number of positions of \<open>s\<close> at which a version declaration starts.\<close>

fun decl_count :: "string \<Rightarrow> nat" where
  "decl_count [] = 0"
| "decl_count (x # xs) = (if decl_at (x # xs) then 1 else 0) + decl_count xs"

text \<open>\<open>blankRunRegex\<close> matches at the head of \<open>s\<close>: at least three newlines.\<close>

definition blank_run :: "string \<Rightarrow> bool" where
  "blank_run s = (3 \<le> length (takeWhile (\<lambda>c. c = CHR 0x0A) s))"

text \<open>The version line built by \<^verbatim>\<open>postProcessCode\<close>.\<close>

definition versionTagOf :: "string \<Rightarrow> string" where
  "versionTagOf v = ''//@version='' @ versionDigits v"

abbreviation (input) nl :: char where "nl \<equiv> CHR 0x0A"

definition json_service :: service where
  "json_service req = Inr (Some ''{}'')"


text \<open>
  The pieces of \<open>codeBlockRegex\<close> after the opening fence, and what they match.  The
  alternation takes the first of \<^verbatim>\<open>pinescript\<close>, \<^verbatim>\<open>pine\<close> and the empty word that the input
  begins with, whatever the case of its letters: \<open>hint_length\<close> is the length taken.  The
  closing part \<^verbatim>\<open>\s*```\<close> matches at \<open>p\<close> when the fence follows the whitespace that \<open>p\<close>
  begins with (\<open>closes\<close>), leaving \<open>after_close p\<close>; \<open>first_close s\<close> is the first
  position of \<open>s\<close> at which it matches.
\<close>

definition hint_length :: "string \<Rightarrow> nat" where
  "hint_length s =
     (if lit_prefix True ''pinescript'' s then length ''pinescript''
      else if lit_prefix True ''pine'' s then length ''pine'' else 0)"

definition closes :: "string \<Rightarrow> bool" where
  "closes p = prefix ''```'' (dropWhile is_space p)"

definition after_close :: "string \<Rightarrow> string" where
  "after_close p = drop (length ''```'') (dropWhile is_space p)"

fun first_close :: "string \<Rightarrow> nat option" where
  "first_close [] = None"
| "first_close (x # xs) = (if closes (x # xs) then Some 0 else map_option Suc (first_close xs))"

abbreviation (input) tailRe :: regex where
  "tailRe \<equiv> Seq (Greedy 0 Whitespace) (Lit ''```'')"

abbreviation (input) grpRe :: regex where
  "grpRe \<equiv> Seq (Group (Lazy AnyChar)) tailRe"

abbreviation (input) restRe :: regex where
  "restRe \<equiv> Seq (Greedy 0 Whitespace) grpRe"

text \<open>
  The two literals of the failure branch of \<^verbatim>\<open>refinePineScript\<close>: the comment line appended
  to the prior code after a blank line, and the explanation returned with it.
\<close>

definition failure_marker_line :: string where
  "failure_marker_line =
     ''// ERROR: AI failed to generate the updated code block. Please try refining again.''"



section \<open>Facts about \<open>indexOf\<close>\<close>

lemma indexOf_Some_D:
  "indexOf pat s = Some k \<Longrightarrow>
     k \<le> length s \<and> prefix pat (drop k s) \<and> (\<forall>j<k. \<not> prefix pat (drop j s))"
proof (induction s arbitrary: k)
  case Nil
  then show ?case by (simp split: if_splits)
next
  case (Cons x xs)
  show ?case
  proof (cases "prefix pat (x # xs)")
    case True
    with Cons.prems show ?thesis by simp
  next
    case False
    with Cons.prems obtain k' where k': "indexOf pat xs = Some k'" "k = Suc k'"
      by auto
    from Cons.IH [OF k'(1)] have ih: "k' \<le> length xs" "prefix pat (drop k' xs)"
      "\<forall>j<k'. \<not> prefix pat (drop j xs)" by auto
    have "\<not> prefix pat (drop j (x # xs))" if "j < k" for j
      using that False ih(3) k'(2) by (cases j) auto
    with ih k'(2) show ?thesis by simp
  qed
qed

lemma indexOf_None_D:
  "indexOf pat s = None \<Longrightarrow> j \<le> length s \<Longrightarrow> \<not> prefix pat (drop j s)"
proof (induction s arbitrary: j)
  case Nil
  then show ?case by (simp split: if_splits)
next
  case (Cons x xs)
  then show ?case by (cases j) (auto split: if_splits)
qed

lemma indexOf_least:
  assumes "indexOf pat s = Some k" and "s = a @ pat @ b"
  shows "k \<le> length a"
proof (rule ccontr)
  assume "\<not> k \<le> length a"
  with indexOf_Some_D [OF assms(1)] have "\<not> prefix pat (drop (length a) s)" by auto
  with assms(2) show False by simp
qed

lemma indexOf_first:
  assumes "s = a @ pat @ b"
    and "\<And>a' b'. s = a' @ pat @ b' \<Longrightarrow> length a \<le> length a'"
  shows "indexOf pat s = Some (length a)"
proof (cases "indexOf pat s")
  case None
  from indexOf_None_D [OF None, of "length a"] assms(1) show ?thesis by simp
next
  case (Some k)
  from indexOf_Some_D [OF Some] have k: "k \<le> length s" "prefix pat (drop k s)" by auto
  from k(2) obtain b' where "drop k s = pat @ b'" by (auto simp: prefix_def)
  then have "s = take k s @ pat @ b'" by (metis append_take_drop_id)
  from assms(2) [OF this] k(1) have "length a \<le> k" by simp
  with indexOf_least [OF Some assms(1)] Some show ?thesis by simp
qed

section \<open>The regular expressions of \<^verbatim>\<open>postProcessCode\<close>\<close>

declare regex_replace_all.simps [simp del]

lemma lit_prefix_False [simp]: "lit_prefix False l s = prefix l s"
proof (induction l arbitrary: s)
  case Nil
  then show ?case by simp
next
  case (Cons p ps)
  then show ?case by (cases s) auto
qed

lemma in_class_Digit [simp]: "in_class Digit = is_digit"
  by (rule ext) simp

lemma in_class_Whitespace [simp]: "in_class Whitespace = is_space"
  by (rule ext) simp

lemma greedy_rests_short: "length (takeWhile c s) < n \<Longrightarrow> greedy_rests c n s = []"
  by (induction s arbitrary: n) auto

lemma greedy_rests_long:
  "n \<le> length (takeWhile c s) \<Longrightarrow> \<exists>rs. greedy_rests c n s = dropWhile c s # rs"
proof (induction s arbitrary: n)
  case Nil
  then show ?case by simp
next
  case (Cons x xs)
  show ?case
  proof (cases "c x")
    case True
    with Cons.prems have "n - 1 \<le> length (takeWhile c xs)" by simp
    from Cons.IH [OF this] obtain rs where "greedy_rests c (n - 1) xs = dropWhile c xs # rs" ..
    with True show ?thesis by simp
  next
    case False
    with Cons.prems show ?thesis by simp
  qed
qed

lemma greedy_rests_0: "\<exists>rs. greedy_rests c 0 s = dropWhile c s # rs"
  by (rule greedy_rests_long) simp

lemma run_versionTag:
  "run False versionTagRegex (s, g) =
     (if decl_at s then (after_decl s, g) # tl (run False versionTagRegex (s, g)) else [])"
proof (cases "prefix ''//@version='' s")
  case False
  then show ?thesis by (simp add: versionTagRegex_def decl_at_def)
next
  case True
  show ?thesis
  proof (cases "decl_at s")
    case False
    with True have "length (takeWhile is_digit (drop (length ''//@version='') s)) < 1"
      by (auto simp: decl_at_def split: list.splits)
    from greedy_rests_short [OF this] False show ?thesis
      by (simp add: versionTagRegex_def)
  next
    case d: True
    then have "1 \<le> length (takeWhile is_digit (drop (length ''//@version='') s))"
      by (auto simp: decl_at_def split: list.splits)
    from greedy_rests_long [OF this] obtain rs where
      rs: "greedy_rests is_digit 1 (drop (length ''//@version='') s) = dropWhile is_digit (drop (length ''//@version='') s) # rs" by auto
    obtain rs' where rs': "greedy_rests is_space 0 (dropWhile is_digit (drop (length ''//@version='') s)) =
        after_decl s # rs'" using greedy_rests_0 by (auto simp: after_decl_def)
    from True d rs rs' show ?thesis
      by (simp add: versionTagRegex_def)
  qed
qed

lemma match_here_versionTag:
  "match_here False versionTagRegex s =
     (if decl_at s
      then Some \<lparr>m_index = 0, m_whole = take (length s - length (after_decl s)) s,
                 m_group = None, m_rest = after_decl s\<rparr>
      else None)"
  by (subst match_here_def, subst run_versionTag) simp

lemma length_after_decl: "decl_at s \<Longrightarrow> length (after_decl s) < length s"
proof -
  assume "decl_at s"
  then have "11 \<le> length s" by (auto simp: decl_at_def prefix_def)
  then have "length (drop (length ''//@version='') s) < length s" by simp
  have "length (after_decl s) \<le> length (drop (length ''//@version='') s)"
    unfolding after_decl_def
    by (meson length_dropWhile_le order_trans)
  with \<open>length (drop (length ''//@version='') s) < length s\<close> show ?thesis by linarith
qed

lemma stripVersionTags_unfold:
  "stripVersionTags s =
     (if decl_at s then stripVersionTags (after_decl s)
      else case s of [] \<Rightarrow> [] | x # xs \<Rightarrow> x # stripVersionTags xs)"
  unfolding stripVersionTags_def
  by (subst regex_replace_all.simps)
     (simp add: match_here_versionTag length_after_decl split: list.splits)

lemma run_blankRun:
  "run False blankRunRegex (s, g) =
     (if blank_run s then (dropWhile (\<lambda>c. c = CHR 0x0A) s, g) # tl (run False blankRunRegex (s, g))
      else [])"
proof -
  have eq: "in_class Newline = (\<lambda>c. c = CHR 0x0A)" by (rule ext) simp
  show ?thesis
  proof (cases "blank_run s")
    case True
    then have "3 \<le> length (takeWhile (\<lambda>c. c = CHR 0x0A) s)" by (simp add: blank_run_def)
    from greedy_rests_long [OF this] obtain rs where
      "greedy_rests (\<lambda>c. c = CHR 0x0A) 3 s = dropWhile (\<lambda>c. c = CHR 0x0A) s # rs" ..
    with True show ?thesis by (simp add: blankRunRegex_def eq)
  next
    case False
    then have "length (takeWhile (\<lambda>c. c = CHR 0x0A) s) < 3" by (simp add: blank_run_def)
    from greedy_rests_short [OF this] False show ?thesis by (simp add: blankRunRegex_def eq)
  qed
qed

lemma collapseBlankRuns_unfold:
  "collapseBlankRuns s =
     (if blank_run s then ''\<newline>\<newline>'' @ collapseBlankRuns (dropWhile (\<lambda>c. c = CHR 0x0A) s)
      else case s of [] \<Rightarrow> [] | x # xs \<Rightarrow> x # collapseBlankRuns xs)"
proof -
  have len: "length (dropWhile (\<lambda>c. c = CHR 0x0A) s) < length s" if "blank_run s"
  proof -
    have "length s = length (takeWhile (\<lambda>c. c = CHR 0x0A) s) + length (dropWhile (\<lambda>c. c = CHR 0x0A) s)"
      by (metis length_append takeWhile_dropWhile_id)
    moreover from that have "3 \<le> length (takeWhile (\<lambda>c. c = CHR 0x0A) s)"
      by (simp add: blank_run_def)
    ultimately show ?thesis by linarith
  qed
  show ?thesis
    unfolding collapseBlankRuns_def
    by (subst regex_replace_all.simps, subst match_here_def, subst run_blankRun)
       (simp add: len split: list.splits)
qed

lemma versionDigits_filter: "versionDigits v = filter is_digit v"
proof (induction v)
  case Nil
  then show ?case
    by (simp add: versionDigits_def regex_replace_all.simps match_here_def)
next
  case (Cons x xs)
  then show ?case
    unfolding versionDigits_def
    by (subst regex_replace_all.simps) (simp add: match_here_def)
qed

lemma decl_at_Cons: "decl_at (x # xs) \<Longrightarrow> x = CHR ''/''"
  by (auto simp: decl_at_def)

lemma decl_count_skip: "\<forall>c\<in>set t. c \<noteq> CHR ''/'' \<Longrightarrow> decl_count (t @ r) = decl_count r"
  by (induction t) (auto dest: decl_at_Cons)

lemma decl_at_iff: "decl_at s = (\<exists>d. is_digit d \<and> prefix (''//@version='' @ [d]) s)"
proof
  assume "decl_at s"
  then obtain r d where "s = ''//@version='' @ r" "drop (length ''//@version='') s = d # tl (drop (length ''//@version='') s)" "is_digit d"
    by (auto simp: decl_at_def prefix_def split: list.splits)
  then have "s = (''//@version='' @ [d]) @ tl r" by auto
  with \<open>is_digit d\<close> show "\<exists>d. is_digit d \<and> prefix (''//@version='' @ [d]) s"
    by (metis prefixI)
next
  assume "\<exists>d. is_digit d \<and> prefix (''//@version='' @ [d]) s"
  then obtain d r where "is_digit d" "s = (''//@version='' @ [d]) @ r" by (auto simp: prefix_def)
  then show "decl_at s" by (simp add: decl_at_def)
qed

lemma blank_run_Cons: "blank_run (x # xs) \<Longrightarrow> x = nl"
  by (auto simp: blank_run_def split: if_splits)

lemma collapse_Nil [simp]: "collapseBlankRuns [] = []"
  by (subst collapseBlankRuns_unfold) (simp add: blank_run_def)

lemma collapse_Cons: "\<not> blank_run (x # xs) \<Longrightarrow> collapseBlankRuns (x # xs) = x # collapseBlankRuns xs"
  by (subst collapseBlankRuns_unfold) simp

lemma collapse_run: "blank_run s \<Longrightarrow>
   collapseBlankRuns s = ''\<newline>\<newline>'' @ collapseBlankRuns (dropWhile (\<lambda>c. c = nl) s)"
  by (subst collapseBlankRuns_unfold) simp

lemma prefix_collapse:
  "\<forall>c\<in>set p. c \<noteq> nl \<Longrightarrow> prefix p (collapseBlankRuns s) = prefix p s"
proof (induction p arbitrary: s)
  case Nil
  then show ?case by simp
next
  case (Cons c p)
  show ?case
  proof (cases s)
    case Nil
    then show ?thesis by simp
  next
    case (Cons x xs)
    show ?thesis
    proof (cases "blank_run s")
      case True
      with Cons have "x = nl" by (auto dest: blank_run_Cons)
      with True Cons Cons.prems show ?thesis by (simp add: collapse_run)
    next
      case False
      with Cons Cons.IH [of xs] Cons.prems show ?thesis by (simp add: collapse_Cons)
    qed
  qed
qed

lemma is_digit_not_nl: "is_digit d \<Longrightarrow> d \<noteq> nl"
  by (auto simp: is_digit_def)

lemma decl_at_collapse: "decl_at (collapseBlankRuns s) = decl_at s"
proof -
  have "prefix (''//@version='' @ [d]) (collapseBlankRuns s) = prefix (''//@version='' @ [d]) s"
    if "is_digit d" for d
    using that by (intro prefix_collapse) (auto dest: is_digit_not_nl)
  then show ?thesis unfolding decl_at_iff by blast
qed

lemma length_dropWhile_run: "blank_run s \<Longrightarrow> length (dropWhile (\<lambda>c. c = nl) s) < length s"
proof -
  assume "blank_run s"
  then have "3 \<le> length (takeWhile (\<lambda>c. c = nl) s)" by (simp add: blank_run_def)
  moreover have "length s = length (takeWhile (\<lambda>c. c = nl) s) + length (dropWhile (\<lambda>c. c = nl) s)"
    by (metis length_append takeWhile_dropWhile_id)
  ultimately show ?thesis by linarith
qed

lemma decl_count_dropWhile_nl: "decl_count (dropWhile (\<lambda>c. c = nl) s) = decl_count s"
proof -
  have "decl_count (takeWhile (\<lambda>c. c = nl) s @ dropWhile (\<lambda>c. c = nl) s) =
        decl_count (dropWhile (\<lambda>c. c = nl) s)"
    by (rule decl_count_skip) (auto dest: set_takeWhileD)
  then show ?thesis by simp
qed

lemma decl_count_collapse: "decl_count (collapseBlankRuns s) = decl_count s"
proof (induction "length s" arbitrary: s rule: less_induct)
  case less
  show ?case
  proof (cases "blank_run s")
    case True
    from less [OF length_dropWhile_run [OF True]]
    have "decl_count (collapseBlankRuns (dropWhile (\<lambda>c. c = nl) s)) = decl_count s"
      by (simp add: decl_count_dropWhile_nl)
    with True show ?thesis by (simp add: collapse_run decl_at_def)
  next
    case False
    show ?thesis
    proof (cases s)
      case Nil
      then show ?thesis by simp
    next
      case (Cons x xs)
      with False have c: "collapseBlankRuns s = x # collapseBlankRuns xs" by (simp add: collapse_Cons)
      from Cons less [of xs] have ih: "decl_count (collapseBlankRuns xs) = decl_count xs" by simp
      from decl_at_collapse [of s] c Cons have "decl_at (x # collapseBlankRuns xs) = decl_at (x # xs)"
        by simp
      with c ih Cons show ?thesis by simp
    qed
  qed
qed

lemma collapse_prefix_nonl:
  "\<forall>c\<in>set t. c \<noteq> nl \<Longrightarrow> collapseBlankRuns (t @ s) = t @ collapseBlankRuns s"
proof (induction t)
  case Nil
  then show ?case by simp
next
  case (Cons c t)
  then have "\<not> blank_run (c # t @ s)" by (auto dest: blank_run_Cons)
  with Cons show ?case by (simp add: collapse_Cons)
qed

lemma collapse_starts_nl: "\<exists>r. collapseBlankRuns (nl # s) = nl # r"
  by (cases "blank_run (nl # s)") (simp_all add: collapse_run collapse_Cons)

lemma versionDigits_digits: "\<forall>c\<in>set (versionDigits v). is_digit c"
  by (simp add: versionDigits_filter)

lemma versionTagOf_no_nl: "\<forall>c\<in>set (versionTagOf v). c \<noteq> nl"
  using versionDigits_digits [of v] by (auto simp: versionTagOf_def dest: is_digit_not_nl)

lemma postProcessCode_shape:
  "postProcessCode x v =
     versionTagOf v @ collapseBlankRuns (nl # stripVersionTags (unfence x))"
  using collapse_prefix_nonl [OF versionTagOf_no_nl]
  by (simp add: postProcessCode_def versionTagOf_def Let_def)

lemma decl_count_tag:
  assumes "versionDigits v \<noteq> []"
  shows "decl_count (versionTagOf v @ r) = 1 + decl_count r"
proof -
  obtain d ds where ds: "versionDigits v = d # ds" using assms by (cases "versionDigits v") auto
  with versionDigits_digits [of v] have d: "is_digit d" and dss: "\<forall>c\<in>set (d # ds). is_digit c"
    by auto
  have "\<forall>c\<in>set (d # ds). c \<noteq> CHR ''/''" using dss by (auto simp: is_digit_def)
  from decl_count_skip [OF this] have "decl_count ((d # ds) @ r) = decl_count r" .
  with d ds show ?thesis
    by (simp add: versionTagOf_def decl_at_def)
qed

lemma stripVersionTags_Nil [simp]: "stripVersionTags [] = []"
  by (subst stripVersionTags_unfold) (simp add: decl_at_def)

lemma stripVersionTags_clean: "decl_count s = 0 \<Longrightarrow> stripVersionTags s = s"
proof (induction s)
  case Nil
  then show ?case by simp
next
  case (Cons x xs)
  then have "\<not> decl_at (x # xs)" "decl_count xs = 0" by (auto split: if_splits)
  with Cons.IH show ?case by (subst stripVersionTags_unfold) simp
qed

lemma starts_nl_collapse:
  "(\<exists>r. collapseBlankRuns s = nl # r) = (\<exists>r. s = nl # r)"
proof (cases s)
  case Nil
  then show ?thesis by simp
next
  case (Cons x xs)
  show ?thesis
  proof (cases "blank_run s")
    case True
    with Cons show ?thesis by (auto simp: collapse_run dest: blank_run_Cons)
  next
    case False
    with Cons show ?thesis by (simp add: collapse_Cons)
  qed
qed

lemma blank_run_nl_Cons: "blank_run (nl # t) = (2 \<le> length (takeWhile (\<lambda>c. c = nl) t))"
  by (auto simp: blank_run_def)

lemma not_blank_run_collapse: "\<not> blank_run (collapseBlankRuns s)"
proof (induction "length s" arbitrary: s rule: less_induct)
  case less
  show ?case
  proof (cases "blank_run s")
    case True
    let ?d = "dropWhile (\<lambda>c. c = nl) s"
    have "\<not> (\<exists>r. ?d = nl # r)"
      by (metis (mono_tags, lifting) dropWhile_eq_Cons_conv)
    then have "\<not> (\<exists>r. collapseBlankRuns ?d = nl # r)"
      using starts_nl_collapse [of "?d"] by blast
    then have "takeWhile (\<lambda>c. c = nl) (collapseBlankRuns ?d) = []"
      by (cases "collapseBlankRuns ?d") auto
    with True show ?thesis by (simp add: collapse_run blank_run_def)
  next
    case False
    show ?thesis
    proof (cases s)
      case Nil
      then show ?thesis by (simp add: blank_run_def)
    next
      case (Cons x xs)
      with False have c: "collapseBlankRuns s = x # collapseBlankRuns xs"
        by (simp add: collapse_Cons)
      show ?thesis
      proof (cases "x = nl")
        case False
        with c show ?thesis by (simp add: blank_run_def)
      next
        case x: True
        from False Cons x have run: "length (takeWhile (\<lambda>c. c = nl) xs) < 2"
          by (simp add: blank_run_def)
        have "length (takeWhile (\<lambda>c. c = nl) (collapseBlankRuns xs)) < 2"
        proof (cases xs)
          case Nil
          then show ?thesis by simp
        next
          case (Cons y ys)
          show ?thesis
          proof (cases "y = nl")
            case False
            with Cons have "\<not> (\<exists>r. collapseBlankRuns xs = nl # r)"
              using starts_nl_collapse [of xs] by simp
            then have "takeWhile (\<lambda>c. c = nl) (collapseBlankRuns xs) = []"
              by (cases "collapseBlankRuns xs") auto
            then show ?thesis by simp
          next
            case y: True
            with run Cons have ys: "takeWhile (\<lambda>c. c = nl) ys = []" by simp
            then have nb: "\<not> blank_run xs" using Cons y by (simp add: blank_run_def)
            from ys have "\<not> (\<exists>r. ys = nl # r)" by auto
            then have "\<not> (\<exists>r. collapseBlankRuns ys = nl # r)"
      using starts_nl_collapse [of "ys"] by blast
            then have "takeWhile (\<lambda>c. c = nl) (collapseBlankRuns ys) = []"
              by (cases "collapseBlankRuns ys") auto
            with nb Cons y show ?thesis by (simp add: collapse_Cons)
          qed
        qed
        with c x show ?thesis by (simp add: blank_run_def)
      qed
    qed
  qed
qed

lemma collapse_idem: "collapseBlankRuns (collapseBlankRuns s) = collapseBlankRuns s"
proof (induction "length s" arbitrary: s rule: less_induct)
  case less
  show ?case
  proof (cases "blank_run s")
    case True
    let ?d = "dropWhile (\<lambda>c. c = nl) s"
    from True have c: "collapseBlankRuns s = nl # nl # collapseBlankRuns ?d"
      by (simp add: collapse_run)
    have nb1: "\<not> blank_run (nl # nl # collapseBlankRuns ?d)"
      using not_blank_run_collapse [of s] c by simp
    then have nb2: "\<not> blank_run (nl # collapseBlankRuns ?d)"
      by (simp add: blank_run_def)
    from less [OF length_dropWhile_run [OF True]]
    have "collapseBlankRuns (collapseBlankRuns ?d) = collapseBlankRuns ?d" .
    with c nb1 nb2 show ?thesis by (simp add: collapse_Cons)
  next
    case False
    show ?thesis
    proof (cases s)
      case Nil
      then show ?thesis by simp
    next
      case (Cons x xs)
      with False have c: "collapseBlankRuns s = x # collapseBlankRuns xs"
        by (simp add: collapse_Cons)
      have nb: "\<not> blank_run (x # collapseBlankRuns xs)"
        using not_blank_run_collapse [of s] c by simp
      from less [of xs] Cons have "collapseBlankRuns (collapseBlankRuns xs) = collapseBlankRuns xs"
        by simp
      with c nb show ?thesis by (simp add: collapse_Cons)
    qed
  qed
qed

lemma no_lead_collapse:
  assumes "dropWhile is_space s = s"
  shows "dropWhile is_space (collapseBlankRuns s) = collapseBlankRuns s"
proof (cases s)
  case Nil
  then show ?thesis by simp
next
  case (Cons x xs)
  with assms have x: "\<not> is_space x"
    by (metis dropWhile_eq_Cons_conv)
  then have "x \<noteq> nl" by (auto simp: is_space_def)
  then have "\<not> blank_run (x # xs)" by (auto dest: blank_run_Cons)
  with Cons x show ?thesis by (simp add: collapse_Cons)
qed

lemma after_decl_tag:
  assumes "versionDigits v \<noteq> []"
  shows "decl_at (versionTagOf v @ nl # r) \<and>
         after_decl (versionTagOf v @ nl # r) = dropWhile is_space r"
proof -
  obtain d ds where ds: "versionDigits v = d # ds" using assms by (cases "versionDigits v") auto
  with versionDigits_digits [of v] have d: "is_digit d" and dss: "\<forall>c\<in>set ds. is_digit c"
    by auto
  have nd: "\<not> is_digit nl" by (simp add: is_digit_def)
  have sp: "is_space nl" by (simp add: is_space_def)
  from dss nd have "dropWhile is_digit (ds @ nl # r) = nl # r"
    by (simp add: dropWhile_append2)
  with d ds sp show ?thesis
    by (simp add: versionTagOf_def decl_at_def after_decl_def)
qed

section \<open>The fence expression\<close>

lemma greedy_rests_suffix: "t \<in> set (greedy_rests c n s) \<Longrightarrow> suffix t s"
proof (induction s arbitrary: n)
  case Nil
  then show ?case by (simp split: if_splits)
next
  case (Cons x xs)
  then show ?case by (auto split: if_splits intro: suffix_ConsI)
qed

lemma greedy_rests_self: "s \<in> set (greedy_rests c 0 s)"
  by (cases s) auto

lemma lazy_rests_suffix: "t \<in> set (lazy_rests c s) \<Longrightarrow> suffix t s"
  by (induction s) (auto split: if_splits intro: suffix_ConsI)

lemma lazy_rests_all: "suffix t s \<Longrightarrow> t \<in> set (lazy_rests (\<lambda>_. True) s)"
  by (induction s) (auto simp: suffix_Cons)

lemma lit_prefix_length: "lit_prefix ic l s \<Longrightarrow> length l \<le> length s"
  by (induction ic l s rule: lit_prefix.induct) auto

lemma run_suffix: "(r, g') \<in> set (run ic re (s, g)) \<Longrightarrow> suffix r s"
proof (induction re arbitrary: r g' s g)
  case (Lit l)
  then show ?case by (auto split: if_splits intro: suffix_drop)
next
  case (Class k)
  then show ?case by (auto split: list.splits if_splits intro: suffix_ConsI)
next
  case (Seq a b)
  then obtain r1 g1 where "(r1, g1) \<in> set (run ic a (s, g))" "(r, g') \<in> set (run ic b (r1, g1))"
    by auto
  with Seq.IH show ?case by (blast intro: suffix_order.trans)
next
  case (Alt a b)
  then show ?case by auto
next
  case (Greedy n k)
  then show ?case by (auto dest: greedy_rests_suffix)
next
  case (Lazy k)
  then show ?case by (auto dest: lazy_rests_suffix)
next
  case (Group a)
  then show ?case by auto
qed

lemma fold_case_backtick: "(fold_case (CHR 0x60) = fold_case x) = (x = CHR 0x60)"
proof -
  have a: "fold_case (CHR 0x60) = CHR 0x60" by (simp add: fold_case_def)
  show ?thesis
  proof (cases "97 \<le> (of_char x :: nat) \<and> (of_char x :: nat) \<le> 122")
    case False
    with a show ?thesis by (auto simp: fold_case_def)
  next
    case True
    then have "((of_char x :: nat) - 32) mod 256 = of_char x - 32"
      by (intro mod_less) linarith
    with True have "(of_char (fold_case x) :: nat) = of_char x - 32"
      by (simp add: fold_case_def)
    with True have "(of_char (fold_case x) :: nat) \<noteq> 96" by linarith
    then have "fold_case x \<noteq> CHR 0x60" by auto
    moreover from True have "x \<noteq> CHR 0x60" by auto
    ultimately show ?thesis using a by simp
  qed
qed

lemma lit_prefix_fence [simp]: "lit_prefix ic ''```'' s = prefix ''```'' s"
proof (cases ic)
  case False
  then show ?thesis
    by (cases s; cases "tl s"; cases "tl (tl s)") auto
next
  case True
  then show ?thesis
    by (cases s; cases "tl s"; cases "tl (tl s)") (auto simp: fold_case_backtick)
qed

lemma in_class_AnyChar [simp]: "in_class AnyChar = (\<lambda>_. True)"
  by (rule ext) simp

lemma closes_Nil [simp]: "\<not> closes []"
  by (simp add: closes_def)

lemma closes_space: "is_space x \<Longrightarrow> closes (x # xs) = closes xs"
  by (simp add: closes_def)

lemma after_close_space: "is_space x \<Longrightarrow> after_close (x # xs) = after_close xs"
  by (simp add: after_close_def)

lemma space_not_backtick: "is_space x \<Longrightarrow> x \<noteq> CHR 0x60"
  by (auto simp: is_space_def)

lemma run_Lit_fence:
  "run ic (Lit ''```'') (s, g) = (if prefix ''```'' s then [(drop (length ''```'') s, g)] else [])"
  by (simp del: lit_prefix.simps)

lemma run_tail:
  "run ic tailRe (p, g) = (if closes p then [(after_close p, g)] else [])"
proof (induction p)
  case Nil
  then show ?case by simp
next
  case (Cons x xs)
  show ?case
  proof (cases "is_space x")
    case True
    then have "\<not> prefix ''```'' (x # xs)" by (auto dest: space_not_backtick)
    with True Cons show ?thesis
      by (simp add: closes_space after_close_space run_Lit_fence del: run.simps(1))
  next
    case False
    then show ?thesis
      by (simp add: closes_def after_close_def run_Lit_fence del: run.simps(1))
  qed
qed

lemma run_grp_unfold:
  "run ic grpRe (s, g) =
     concat (map (\<lambda>r. if closes r then [(after_close r, Some (take (length s - length r) s))] else [])
                 (lazy_rests (\<lambda>_. True) s))"
proof -
  have "run ic grpRe (s, g) = concat (map (run ic tailRe) (run ic (Group (Lazy AnyChar)) (s, g)))"
    by (rule run.simps(3))
  moreover have "run ic (Group (Lazy AnyChar)) (s, g) =
      map (\<lambda>r. (r, Some (take (length s - length r) s))) (lazy_rests (\<lambda>_. True) s)"
    by (simp add: comp_def)
  ultimately have "run ic grpRe (s, g) =
      concat (map (\<lambda>r. run ic tailRe (r, Some (take (length s - length r) s)))
                  (lazy_rests (\<lambda>_. True) s))"
    by (simp only: map_map comp_def)
  then show ?thesis by (simp only: run_tail)
qed

lemma run_grp_Nil [simp]: "run ic grpRe ([], g) = []"
  by (subst run_grp_unfold) simp

lemma run_grp_Cons:
  "run ic grpRe (x # xs, g) =
     (if closes (x # xs) then [(after_close (x # xs), Some [])] else []) @
     map (\<lambda>(r, c). (r, map_option ((#) x) c)) (run ic grpRe (xs, g))"
proof -
  have len: "Suc (length xs) - length r = Suc (length xs - length r)"
    if "r \<in> set (lazy_rests (\<lambda>_. True) xs)" for r
    using lazy_rests_suffix [OF that] by (auto dest: suffix_length_le)
  have "concat (map (\<lambda>r. if closes r
            then [(after_close r, Some (take (length (x # xs) - length r) (x # xs)))] else [])
          (lazy_rests (\<lambda>_. True) xs)) =
        map (\<lambda>(r, c). (r, map_option ((#) x) c))
          (concat (map (\<lambda>r. if closes r
            then [(after_close r, Some (take (length xs - length r) xs))] else [])
          (lazy_rests (\<lambda>_. True) xs)))"
    unfolding map_concat
    by (rule arg_cong [where f = concat]) (auto simp: len)
  then show ?thesis
    unfolding run_grp_unfold [of ic "x # xs" g] run_grp_unfold [of ic xs g] by simp
qed

lemma run_grp_None: "first_close s = None \<Longrightarrow> run ic grpRe (s, g) = []"
proof (induction s)
  case Nil
  then show ?case by simp
next
  case (Cons x xs)
  then show ?case by (subst run_grp_Cons) (auto split: if_splits)
qed

lemma run_grp_Some:
  "first_close s = Some k \<Longrightarrow>
     \<exists>rs. run ic grpRe (s, g) = (after_close (drop k s), Some (take k s)) # rs"
proof (induction s arbitrary: k)
  case Nil
  then show ?case by simp
next
  case (Cons x xs)
  show ?case
  proof (cases "closes (x # xs)")
    case True
    with Cons.prems show ?thesis by (subst run_grp_Cons) simp
  next
    case False
    with Cons.prems obtain k' where k': "first_close xs = Some k'" "k = Suc k'" by auto
    from Cons.IH [OF k'(1)] obtain rs where
      "run ic grpRe (xs, g) = (after_close (drop k' xs), Some (take k' xs)) # rs" ..
    with False k'(2) show ?thesis by (subst run_grp_Cons) simp
  qed
qed

lemma run_rest_Some:
  assumes "first_close (dropWhile is_space t) = Some k"
  shows "\<exists>rs. run ic restRe (t, g) =
           (after_close (drop k (dropWhile is_space t)), Some (take k (dropWhile is_space t))) # rs"
proof -
  obtain ts where ts: "greedy_rests is_space 0 t = dropWhile is_space t # ts"
    using greedy_rests_0 by blast
  from run_grp_Some [OF assms] obtain rs where
    rs: "run ic grpRe (dropWhile is_space t, g) =
       (after_close (drop k (dropWhile is_space t)), Some (take k (dropWhile is_space t))) # rs" ..
  have "run ic restRe (t, g) = concat (map (run ic grpRe) (run ic (Greedy 0 Whitespace) (t, g)))"
    by (rule run.simps(3))
  moreover have "run ic (Greedy 0 Whitespace) (t, g) = map (\<lambda>r. (r, g)) (greedy_rests is_space 0 t)"
    by simp
  ultimately have "run ic restRe (t, g) =
      concat (map (\<lambda>r. run ic grpRe (r, g)) (greedy_rests is_space 0 t))"
    by (simp only: map_map comp_def)
  with ts rs show ?thesis by simp
qed

lemma run_alt_head:
  "\<exists>sts. run True (Alt (Lit ''pinescript'') (Alt (Lit ''pine'') (Lit ''''))) (r, g) =
      (drop (hint_length r) r, g) # sts"
  by (simp add: hint_length_def)

lemma run_codeBlock_Some:
  assumes "first_close (dropWhile is_space (drop (hint_length r) r)) = Some k"
  shows "\<exists>rs. run True codeBlockRegex (''```'' @ r, g) =
           (after_close (drop k (dropWhile is_space (drop (hint_length r) r))),
            Some (take k (dropWhile is_space (drop (hint_length r) r)))) # rs"
proof -
  let ?alt = "Alt (Lit ''pinescript'') (Alt (Lit ''pine'') (Lit ''''))"
  obtain sts where sts: "run True ?alt (r, g) = (drop (hint_length r) r, g) # sts"
    using run_alt_head by blast
  from run_rest_Some [OF assms] obtain rs where
    rs: "run True restRe (drop (hint_length r) r, g) =
       (after_close (drop k (dropWhile is_space (drop (hint_length r) r))),
            Some (take k (dropWhile is_space (drop (hint_length r) r)))) # rs" ..
  have e1: "run True codeBlockRegex (''```'' @ r, g) =
      concat (map (run True (Seq ?alt restRe)) (run True (Lit ''```'') (''```'' @ r, g)))"
    unfolding codeBlockRegex_def by (rule run.simps(3))
  have e2: "run True (Lit ''```'') (''```'' @ r, g) = [(r, g)]"
    by (simp add: run_Lit_fence del: run.simps(1))
  have e3: "run True (Seq ?alt restRe) (r, g) = concat (map (run True restRe) (run True ?alt (r, g)))"
    by (rule run.simps(3))
  from e1 e2 e3 sts rs show ?thesis by (simp del: run.simps)
qed

lemma run_Seq_mem:
  "(st2 \<in> set (run ic (Seq a b) st)) = (\<exists>st1\<in>set (run ic a st). st2 \<in> set (run ic b st1))"
  by simp

lemma run_Lit_mem:
  "((r, g') \<in> set (run ic (Lit l) (s, g))) = (lit_prefix ic l s \<and> r = drop (length l) s \<and> g' = g)"
  by auto

lemma run_Greedy_group: "(r, g') \<in> set (run ic (Greedy n k) (s, g)) \<Longrightarrow> g' = g"
  by auto

lemma run_Group_group: "(r, g') \<in> set (run ic (Group a) (s, g)) \<Longrightarrow> g' \<noteq> None"
  by auto

lemma codeBlock_run_elem:
  assumes "(r', g') \<in> set (run True codeBlockRegex (x, g))"
  shows "(\<exists>b d. x = ''```'' @ b @ ''```'' @ d) \<and> g' \<noteq> None"
proof -
  let ?alt = "Alt (Lit ''pinescript'') (Alt (Lit ''pine'') (Lit ''''))"
  from assms obtain st1 st2 st3 st4 st5 where
    1: "st1 \<in> set (run True (Lit ''```'') (x, g))" and
    2: "st2 \<in> set (run True ?alt st1)" and
    3: "st3 \<in> set (run True (Greedy 0 Whitespace) st2)" and
    4: "st4 \<in> set (run True (Group (Lazy AnyChar)) st3)" and
    5: "st5 \<in> set (run True (Greedy 0 Whitespace) st4)" and
    6: "(r', g') \<in> set (run True (Lit ''```'') st5)"
    unfolding codeBlockRegex_def run_Seq_mem by blast
  from 1 have x: "prefix ''```'' x" and st1: "fst st1 = drop (length ''```'') x"
    by (auto simp del: lit_prefix.simps simp: lit_prefix_fence split: if_splits)
  have s2: "suffix (fst st2) (fst st1)" using 2 run_suffix [of "fst st2" "snd st2" True ?alt "fst st1" "snd st1"]
    by simp
  have s3: "suffix (fst st3) (fst st2)" using 3 run_suffix [of "fst st3" "snd st3" True _ "fst st2" "snd st2"]
    by simp
  have s4: "suffix (fst st4) (fst st3)" using 4 run_suffix [of "fst st4" "snd st4" True _ "fst st3" "snd st3"]
    by simp
  have s5: "suffix (fst st5) (fst st4)" using 5 run_suffix [of "fst st5" "snd st5" True _ "fst st4" "snd st4"]
    by simp
  from 6 have p: "prefix ''```'' (fst st5)" and g': "g' = snd st5"
    by (cases st5; auto simp del: lit_prefix.simps simp: lit_prefix_fence split: if_splits)+
  from s2 s3 s4 s5 have "suffix (fst st5) (fst st1)"
    by (meson suffix_order.trans)
  then obtain b where "fst st1 = b @ fst st5" by (auto simp: suffix_def)
  moreover from p obtain d where "fst st5 = ''```'' @ d" by (auto simp: prefix_def)
  moreover from x obtain y where "x = ''```'' @ y" by (auto simp: prefix_def)
  ultimately have "x = ''```'' @ b @ ''```'' @ d" using st1 by simp
  moreover have "snd st4 \<noteq> None" using 4 run_Group_group [of "fst st4" "snd st4" True _ "fst st3" "snd st3"]
    by simp
  moreover have "snd st5 = snd st4" using 5 run_Greedy_group [of "fst st5" "snd st5" True _ _ "fst st4" "snd st4"]
    by simp
  ultimately show ?thesis using g' by auto
qed

lemma first_close_exists: "closes (drop k s) \<Longrightarrow> first_close s \<noteq> None"
proof (induction s arbitrary: k)
  case Nil
  then show ?case by simp
next
  case (Cons x xs)
  then show ?case by (cases k) auto
qed

lemma concat_map_nonempty: "x \<in> set xs \<Longrightarrow> f x \<noteq> [] \<Longrightarrow> concat (map f xs) \<noteq> []"
  by auto

lemma codeBlock_run_nonempty:
  assumes "x = ''```'' @ b @ ''```'' @ d"
  shows "run True codeBlockRegex (x, g) \<noteq> []"
proof -
  let ?alt = "Alt (Lit ''pinescript'') (Alt (Lit ''pine'') (Lit ''''))"
  let ?r = "b @ ''```'' @ d"
  have "closes (drop (length b) ?r)" by (simp add: closes_def is_space_def)
  then have "first_close ?r \<noteq> None" by (rule first_close_exists)
  then obtain k where "first_close ?r = Some k" by auto
  from run_grp_Some [OF this, of True g] obtain rs0 where
    "run True grpRe (?r, g) = (after_close (drop k ?r), Some (take k ?r)) # rs0" ..
  then have grp: "run True grpRe (?r, g) \<noteq> []" by (simp del: run.simps)
  have "run True restRe (?r, g) = concat (map (run True grpRe) (run True (Greedy 0 Whitespace) (?r, g)))"
    by (rule run.simps(3))
  moreover have "(?r, g) \<in> set (run True (Greedy 0 Whitespace) (?r, g))"
    using greedy_rests_self [of ?r is_space] by (simp del: greedy_rests.simps)
  ultimately have rest: "run True restRe (?r, g) \<noteq> []"
    using grp concat_map_nonempty [of "(?r, g)" _ "run True grpRe"] by (simp del: run.simps)
  have "run True (Seq ?alt restRe) (?r, g) = concat (map (run True restRe) (run True ?alt (?r, g)))"
    by (rule run.simps(3))
  moreover have "(?r, g) \<in> set (run True ?alt (?r, g))" by simp
  ultimately have alt: "run True (Seq ?alt restRe) (?r, g) \<noteq> []"
    using rest concat_map_nonempty [of "(?r, g)" _ "run True restRe"] by (simp del: run.simps)
  have e1: "run True codeBlockRegex (x, g) =
      concat (map (run True (Seq ?alt restRe)) (run True (Lit ''```'') (x, g)))"
    unfolding codeBlockRegex_def by (rule run.simps(3))
  have e2: "run True (Lit ''```'') (x, g) = [(?r, g)]"
    using assms by (simp add: run_Lit_fence del: run.simps(1))
  from e1 e2 alt show ?thesis by (simp del: run.simps)
qed

lemma match_here_None: "(match_here ic r s = None) = (run ic r (s, None) = [])"
  by (simp add: match_here_def split: list.splits prod.splits)

lemma codeBlock_here_None_iff:
  "(match_here True codeBlockRegex x = None) = (\<not> (\<exists>b d. x = ''```'' @ b @ ''```'' @ d))"
proof
  assume "match_here True codeBlockRegex x = None"
  then have "run True codeBlockRegex (x, None) = []" by (simp only: match_here_None)
  then show "\<not> (\<exists>b d. x = ''```'' @ b @ ''```'' @ d)"
    using codeBlock_run_nonempty by blast
next
  assume a: "\<not> (\<exists>b d. x = ''```'' @ b @ ''```'' @ d)"
  have "run True codeBlockRegex (x, None) = []"
  proof (cases "run True codeBlockRegex (x, None)")
    case Nil
    then show ?thesis .
  next
    case (Cons st sts)
    then have "(fst st, snd st) \<in> set (run True codeBlockRegex (x, None))" by simp
    from codeBlock_run_elem [OF this] a show ?thesis by blast
  qed
  then show "match_here True codeBlockRegex x = None" by (simp only: match_here_None)
qed



lemma regex_match_at:
  assumes "i \<le> length s"
    and "match_here ic r (drop i s) = Some m0"
    and "\<forall>j<i. match_here ic r (drop j s) = None"
  shows "\<exists>m. regex_match ic r s = Some m \<and> m_whole m = m_whole m0 \<and>
             m_group m = m_group m0 \<and> m_rest m = m_rest m0"
  using assms
proof (induction s arbitrary: i)
  case Nil
  then show ?case by simp
next
  case (Cons x xs)
  show ?case
  proof (cases i)
    case 0
    with Cons.prems show ?thesis by simp
  next
    case (Suc i')
    with Cons.prems have n: "match_here ic r (x # xs) = None" by auto
    have "\<forall>j<i'. match_here ic r (drop j xs) = None"
    proof (intro allI impI)
      fix j assume "j < i'"
      with Cons.prems(3) Suc have "match_here ic r (drop (Suc j) (x # xs)) = None" by blast
      then show "match_here ic r (drop j xs) = None" by simp
    qed
    with Cons.IH [of i'] Cons.prems Suc obtain m where
      "regex_match ic r xs = Some m" "m_whole m = m_whole m0" "m_group m = m_group m0"
      "m_rest m = m_rest m0" by auto
    with n show ?thesis by simp
  qed
qed

lemma regex_match_Some_D:
  "regex_match ic r s = Some m \<Longrightarrow>
     \<exists>i m0. i \<le> length s \<and> match_here ic r (drop i s) = Some m0 \<and>
       m_whole m = m_whole m0 \<and> m_group m = m_group m0 \<and> m_rest m = m_rest m0"
proof (induction s arbitrary: m)
  case Nil
  then show ?case by auto
next
  case (Cons x xs)
  show ?case
  proof (cases "match_here ic r (x # xs)")
    case (Some m0)
    with Cons.prems have "m = m0" by simp
    with Some show ?thesis by (intro exI [of _ 0] exI [of _ m0]) simp
  next
    case None
    with Cons.prems obtain m' where m': "regex_match ic r xs = Some m'"
      "m = m'\<lparr>m_index := Suc (m_index m')\<rparr>" by auto
    from Cons.IH [OF m'(1)] obtain i m0 where "i \<le> length xs"
      "match_here ic r (drop i xs) = Some m0" "m_whole m' = m_whole m0"
      "m_group m' = m_group m0" "m_rest m' = m_rest m0" by blast
    with m'(2) show ?thesis by (intro exI [of _ "Suc i"] exI [of _ m0]) simp
  qed
qed

lemma codeBlock_group_defined:
  assumes "regex_match True codeBlockRegex s = Some m"
  shows "m_group m \<noteq> None"
proof -
  from regex_match_Some_D [OF assms] obtain i m0 where
    m0: "match_here True codeBlockRegex (drop i s) = Some m0" "m_group m = m_group m0" by blast
  then obtain rest g sts where r: "run True codeBlockRegex (drop i s, None) = (rest, g) # sts"
    "m_group m0 = g"
    by (auto simp: match_here_def split: list.splits prod.splits)
  then have "(rest, g) \<in> set (run True codeBlockRegex (drop i s, None))" by simp
  from codeBlock_run_elem [OF this] r(2) m0(2) show ?thesis by simp
qed

lemma prefix3_overlap:
  assumes "prefix p (u @ ''```'' @ y)" and "u \<noteq> []" and "length p = 3"
  shows "prefix p (u @ ''``'')"
proof -
  from assms(1) have "p = take (length p) (u @ ''```'' @ y)"
    by (metis append_eq_conv_conj prefix_def)
  with assms(3) have p: "p = take 3 (u @ ''```'' @ y)" by simp
  have "take 3 (u @ ''```'' @ y) = take 3 (u @ ''``'')"
    using assms(2) by (cases u; cases "tl u"; cases "tl (tl u)") auto
  with p have "p = take 3 (u @ ''``'')" by simp
  then show ?thesis by (metis take_is_prefix)
qed

lemma fence_before:
  assumes "j < length E1" and "prefix ''```'' (drop j (E1 @ ''```'' @ y))"
  shows "sublist ''```'' (E1 @ ''``'')"
proof -
  from assms(1) have ne: "drop j E1 \<noteq> []" by simp
  from assms have "prefix ''```'' (drop j E1 @ ''```'' @ y)" by simp
  from prefix3_overlap [OF this ne] have "prefix ''```'' (drop j E1 @ ''``'')" by simp
  then obtain z where "drop j E1 @ ''``'' = ''```'' @ z" by (auto simp: prefix_def)
  then have "E1 @ ''``'' = take j E1 @ ''```'' @ z"
    by (metis append.assoc append_take_drop_id)
  then show ?thesis unfolding sublist_def by blast
qed

lemma lit_prefix_append_other:
  assumes "\<forall>p\<in>set l. fold_case p \<noteq> fold_case c"
  shows "lit_prefix True l (s @ c # z) = lit_prefix True l s"
  using assms
proof (induction l arbitrary: s)
  case Nil
  then show ?case by simp
next
  case (Cons p ps)
  then show ?case by (cases s) auto
qed

lemma hint_length_append_fence: "hint_length (s @ ''```'' @ z) = hint_length s"
proof -
  have f: "(fold_case x = fold_case (CHR 0x60)) = (x = CHR 0x60)" for x
    using fold_case_backtick [of x] by auto
  have a: "lit_prefix True ''pinescript'' (s @ CHR 0x60 # ''``'' @ z) = lit_prefix True ''pinescript'' s"
    by (rule lit_prefix_append_other) (simp add: f)
  have b: "lit_prefix True ''pine'' (s @ CHR 0x60 # ''``'' @ z) = lit_prefix True ''pine'' s"
    by (rule lit_prefix_append_other) (simp add: f)
  from a b show ?thesis by (simp add: hint_length_def del: lit_prefix.simps)
qed

lemma hint_length_le: "hint_length s \<le> length s"
  using lit_prefix_length [of True "''pinescript''" s] lit_prefix_length [of True "''pine''" s]
  by (simp add: hint_length_def del: lit_prefix.simps)

lemma rtrim_split:
  "s = rev (dropWhile P (rev s)) @ rev (takeWhile P (rev s))"
  by (metis rev_append rev_rev_ident takeWhile_dropWhile_id)

lemma rtrim_last:
  "rev (dropWhile P (rev s)) \<noteq> [] \<Longrightarrow> \<not> P (last (rev (dropWhile P (rev s))))"
  by (metis hd_dropWhile last_rev rev_is_Nil_conv)

lemma dropWhile_all: "\<forall>x\<in>set w. P x \<Longrightarrow> dropWhile P (w @ ys) = dropWhile P ys"
  by (induction w) auto

lemma first_close_char:
  assumes "k \<le> length s" and "closes (drop k s)" and "\<forall>j<k. \<not> closes (drop j s)"
  shows "first_close s = Some k"
  using assms
proof (induction s arbitrary: k)
  case Nil
  then show ?case by simp
next
  case (Cons x xs)
  show ?case
  proof (cases k)
    case 0
    with Cons.prems show ?thesis by simp
  next
    case (Suc k')
    with Cons.prems have n: "\<not> closes (x # xs)" by auto
    have "\<forall>j<k'. \<not> closes (drop j xs)"
    proof (intro allI impI)
      fix j assume "j < k'"
      with Cons.prems(3) Suc have "\<not> closes (drop (Suc j) (x # xs))" by blast
      then show "\<not> closes (drop j xs)" by simp
    qed
    with Cons.IH [of k'] Cons.prems Suc have "first_close xs = Some k'" by simp
    with n Suc show ?thesis by simp
  qed
qed

lemma backtick_not_space: "\<not> is_space (CHR 0x60)"
  by (simp add: is_space_def)

text \<open>The closing fence is found right after the trimmed interior.\<close>

lemma first_close_interior:
  assumes nof: "\<not> sublist ''```'' (I @ ''``'')"
    and suf: "suffix body I"
    and lead: "dropWhile is_space body = body"
  shows "first_close (body @ ''```'' @ E2) = Some (length (rev (dropWhile is_space (rev body)))) \<and>
         after_close (drop (length (rev (dropWhile is_space (rev body)))) (body @ ''```'' @ E2)) = E2 \<and>
         take (length (rev (dropWhile is_space (rev body)))) (body @ ''```'' @ E2) =
           rev (dropWhile is_space (rev body))"
proof -
  let ?A = "rev (dropWhile is_space (rev body))"
  let ?B = "rev (takeWhile is_space (rev body))"
  have split: "body = ?A @ ?B" by (rule rtrim_split)
  have Bsp: "\<forall>x\<in>set ?B. is_space x" by (auto dest: set_takeWhileD)
  have dropk: "drop (length ?A) (body @ ''```'' @ E2) = ?B @ ''```'' @ E2"
    by (subst (2) split) simp
  have dw: "dropWhile is_space (?B @ ''```'' @ E2) = ''```'' @ E2"
    using dropWhile_all [OF Bsp, of "''```'' @ E2"] by (simp add: backtick_not_space)
  have c: "closes (drop (length ?A) (body @ ''```'' @ E2))"
    unfolding dropk closes_def dw by simp
  have ac: "after_close (drop (length ?A) (body @ ''```'' @ E2)) = E2"
    unfolding dropk after_close_def dw by simp
  have tk: "take (length ?A) (body @ ''```'' @ E2) = ?A"
    by (subst (2) split) simp
  have nc: "\<not> closes (drop j (body @ ''```'' @ E2))" if j: "j < length ?A" for j
  proof
    assume cl: "closes (drop j (body @ ''```'' @ E2))"
    from j have ne: "drop j ?A \<noteq> []" by simp
    have Ane: "?A \<noteq> []" using j by (metis list.size(3) not_less_zero)
    have "last (drop j ?A) = last ?A" using j by (simp add: last_drop)
    with rtrim_last [OF Ane] have nl: "\<not> is_space (last (drop j ?A))" by simp
    have lin: "last (drop j ?A) \<in> set (drop j ?A @ ?B)"
      by (metis UnI1 last_in_set ne set_append)
    let ?y = "drop j ?A @ ?B"
    have dj: "drop j (body @ ''```'' @ E2) = ?y @ ''```'' @ E2"
      using j by (subst split) simp
    have dwy: "dropWhile is_space (?y @ ''```'' @ E2) = dropWhile is_space ?y @ ''```'' @ E2"
      using lin nl by (meson dropWhile_append1)
    have vne: "dropWhile is_space ?y \<noteq> []"
      using lin nl by (metis dropWhile_eq_Nil_conv)
    from cl have "prefix ''```'' (dropWhile is_space ?y @ ''```'' @ E2)"
      unfolding closes_def dj dwy .
    from prefix3_overlap [OF this vne] have "prefix ''```'' (dropWhile is_space ?y @ ''``'')" by simp
    then obtain z where z: "dropWhile is_space ?y @ ''``'' = ''```'' @ z" by (auto simp: prefix_def)
    have "suffix ?y body" by (subst (3) split) (metis append.assoc append_take_drop_id suffixI)
    moreover have "suffix (dropWhile is_space ?y) ?y" by (rule suffix_dropWhile)
    ultimately have "suffix (dropWhile is_space ?y) I" using suf by (meson suffix_order.trans)
    then obtain pre where "I = pre @ dropWhile is_space ?y" by (auto simp: suffix_def)
    with z have "I @ ''``'' = pre @ ''```'' @ z" by simp
    then have "sublist ''```'' (I @ ''``'')" unfolding sublist_def by blast
    with nof show False by simp
  qed
  have "length ?A \<le> length (body @ ''```'' @ E2)" by (subst (2) split) simp
  from first_close_char [OF this c] nc ac tk show ?thesis by blast
qed

lemma match_here_Some:
  "run ic r (s, None) = (rest, g) # sts \<Longrightarrow>
     match_here ic r s =
       Some \<lparr>m_index = 0, m_whole = take (length s - length rest) s, m_group = g, m_rest = rest\<rparr>"
  by (simp add: match_here_def)

lemma codeBlock_here_fenced:
  assumes "\<not> sublist ''```'' (I @ ''``'')"
  shows "match_here True codeBlockRegex (''```'' @ I @ ''```'' @ E2) =
           Some \<lparr>m_index = 0, m_whole = ''```'' @ I @ ''```'',
                 m_group = Some (trim (drop (hint_length I) I)), m_rest = E2\<rparr>"
proof -
  let ?r = "I @ ''```'' @ E2"
  let ?h = "hint_length I"
  let ?body = "dropWhile is_space (drop ?h I)"
  have h: "hint_length ?r = ?h" by (rule hint_length_append_fence)
  have "drop ?h ?r = drop ?h I @ ''```'' @ E2" using hint_length_le [of I] by simp
  moreover have "dropWhile is_space (drop ?h I @ ''```'' @ E2) = ?body @ ''```'' @ E2"
    by (simp add: dropWhile_append backtick_not_space)
  ultimately have t: "dropWhile is_space (drop (hint_length ?r) ?r) = ?body @ ''```'' @ E2"
    using h by simp
  have suf: "suffix ?body I"
    by (meson suffix_drop suffix_dropWhile suffix_order.trans)
  have lead: "dropWhile is_space ?body = ?body" by simp
  from first_close_interior [OF assms suf lead, of E2]
  have fc: "first_close (?body @ ''```'' @ E2) = Some (length (trim (drop ?h I)))"
    and ac: "after_close (drop (length (trim (drop ?h I))) (?body @ ''```'' @ E2)) = E2"
    and tk: "take (length (trim (drop ?h I))) (?body @ ''```'' @ E2) = trim (drop ?h I)"
    by (simp_all add: trim_def)
  from fc t have "first_close (dropWhile is_space (drop (hint_length ?r) ?r)) =
      Some (length (trim (drop ?h I)))" by simp
  from run_codeBlock_Some [OF this, of None] t ac tk obtain rs where
    "run True codeBlockRegex (''```'' @ ?r, None) = (E2, Some (trim (drop ?h I))) # rs"
    by auto
  from match_here_Some [OF this]
  have m: "match_here True codeBlockRegex (''```'' @ ?r) =
      Some \<lparr>m_index = 0, m_whole = take (length (''```'' @ ?r) - length E2) (''```'' @ ?r),
            m_group = Some (trim (drop ?h I)), m_rest = E2\<rparr>" .
  have "''```'' @ ?r = (''```'' @ I @ ''```'') @ E2" by simp
  moreover have "length (''```'' @ ?r) - length E2 = length (''```'' @ I @ ''```'')" by simp
  ultimately have w: "take (length (''```'' @ ?r) - length E2) (''```'' @ ?r) = ''```'' @ I @ ''```''"
    by (metis append_eq_conv_conj)
  from m show ?thesis unfolding w .
qed

lemma stripSectionMarkers_unfold:
  "stripSectionMarkers s =
     (if prefix ''[ANALYSIS]'' s then stripSectionMarkers (drop (length ''[ANALYSIS]'') s)
      else if prefix ''[CODE]'' s then stripSectionMarkers (drop (length ''[CODE]'') s)
      else case s of [] \<Rightarrow> [] | x # xs \<Rightarrow> x # stripSectionMarkers xs)"
proof -
  have l1: "length (drop (length ''[ANALYSIS]'') s) < length s" if "prefix ''[ANALYSIS]'' s"
    using that by (auto simp: prefix_def)
  have l2: "length (drop (length ''[CODE]'') s) < length s" if "prefix ''[CODE]'' s"
    using that by (auto simp: prefix_def)
  have r: "run False sectionMarkerRegex (s, None) =
      (if prefix ''[ANALYSIS]'' s then [(drop (length ''[ANALYSIS]'') s, None)] else []) @
      (if prefix ''[CODE]'' s then [(drop (length ''[CODE]'') s, None)] else [])"
    by (simp add: sectionMarkerRegex_def del: lit_prefix.simps)
  show ?thesis
    unfolding stripSectionMarkers_def
    apply (subst regex_replace_all.simps)
    apply (subst match_here_def)
    apply (subst r)
    using l1 l2 apply (simp split: list.splits)
    done
qed

lemma space_not_bracket: "is_space c \<Longrightarrow> c \<noteq> CHR ''[''"
  by (auto simp: is_space_def)

lemma strip_markers_lead:
  "\<forall>c\<in>set w. is_space c \<Longrightarrow> stripSectionMarkers (w @ s) = w @ stripSectionMarkers s"
proof (induction w)
  case Nil
  then show ?case by simp
next
  case (Cons c w)
  then have "c \<noteq> CHR ''[''" by (auto dest: space_not_bracket)
  with Cons show ?case by (subst stripSectionMarkers_unfold) simp
qed

lemma prefix_append_spaces:
  assumes "prefix l (s @ w)" and "\<forall>c\<in>set w. is_space c" and "\<forall>c\<in>set l. \<not> is_space c"
  shows "prefix l s"
proof -
  from assms(1) consider "prefix l s" | us where "l = s @ us" "prefix us w"
    unfolding prefix_append by blast
  then show ?thesis
  proof cases
    case 1
    then show ?thesis .
  next
    case 2
    show ?thesis
    proof (cases us)
      case Nil
      with 2 show ?thesis by simp
    next
      case (Cons u us')
      with 2(2) have "u \<in> set w" by (auto simp: prefix_def)
      moreover from Cons 2(1) have "u \<in> set l" by simp
      ultimately show ?thesis using assms(2,3) by blast
    qed
  qed
qed

lemma strip_markers_trail:
  assumes "\<forall>c\<in>set w. is_space c"
  shows "stripSectionMarkers (s @ w) = stripSectionMarkers s @ w"
proof (induction "length s" arbitrary: s rule: less_induct)
  case less
  have nA: "\<forall>c\<in>set ''[ANALYSIS]''. \<not> is_space c" by (simp add: is_space_def)
  have nC: "\<forall>c\<in>set ''[CODE]''. \<not> is_space c" by (simp add: is_space_def)
  show ?case
  proof (cases "prefix ''[ANALYSIS]'' s")
    case True
    then have p: "prefix ''[ANALYSIS]'' (s @ w)" by (rule prefix_prefix)
    from True have len: "length ''[ANALYSIS]'' \<le> length s" by (rule prefix_length_le)
    then have d: "drop (length ''[ANALYSIS]'') (s @ w) = drop (length ''[ANALYSIS]'') s @ w"
      by simp
    from len have "length (drop (length ''[ANALYSIS]'') s) < length s" by simp
    from less [OF this] have ih: "stripSectionMarkers (drop (length ''[ANALYSIS]'') s @ w) =
        stripSectionMarkers (drop (length ''[ANALYSIS]'') s) @ w" .
    have "stripSectionMarkers (s @ w) = stripSectionMarkers (drop (length ''[ANALYSIS]'') (s @ w))"
      using p by (subst stripSectionMarkers_unfold) (simp only: if_True)
    also have "\<dots> = stripSectionMarkers (drop (length ''[ANALYSIS]'') s) @ w"
      using d ih by simp
    also have "stripSectionMarkers (drop (length ''[ANALYSIS]'') s) = stripSectionMarkers s"
      using True by (subst (2) stripSectionMarkers_unfold) (simp only: if_True)
    finally show ?thesis .
  next
    case nA': False
    then have npA: "\<not> prefix ''[ANALYSIS]'' (s @ w)"
      using prefix_append_spaces [OF _ assms nA] by blast
    show ?thesis
    proof (cases "prefix ''[CODE]'' s")
      case True
      then have p: "prefix ''[CODE]'' (s @ w)" by (rule prefix_prefix)
      from True have len: "length ''[CODE]'' \<le> length s" by (rule prefix_length_le)
      then have d: "drop (length ''[CODE]'') (s @ w) = drop (length ''[CODE]'') s @ w"
        by simp
      from len have "length (drop (length ''[CODE]'') s) < length s" by simp
      from less [OF this] have ih: "stripSectionMarkers (drop (length ''[CODE]'') s @ w) =
          stripSectionMarkers (drop (length ''[CODE]'') s) @ w" .
      have "stripSectionMarkers (s @ w) = stripSectionMarkers (drop (length ''[CODE]'') (s @ w))"
        using p npA by (subst stripSectionMarkers_unfold) (simp only: if_True if_False)
      also have "\<dots> = stripSectionMarkers (drop (length ''[CODE]'') s) @ w"
        using d ih by simp
      also have "stripSectionMarkers (drop (length ''[CODE]'') s) = stripSectionMarkers s"
        using True nA' by (subst (2) stripSectionMarkers_unfold) (simp only: if_True if_False)
      finally show ?thesis .
    next
      case nC': False
      then have npC: "\<not> prefix ''[CODE]'' (s @ w)"
        using prefix_append_spaces [OF _ assms nC] by blast
      show ?thesis
      proof (cases s)
        case Nil
        with strip_markers_lead [OF assms, of "[]"] show ?thesis
          by (simp add: stripSectionMarkers_unfold [of "[]"])
      next
        case (Cons x xs)
        from less [of xs] Cons have ih: "stripSectionMarkers (xs @ w) = stripSectionMarkers xs @ w"
          by simp
        have "stripSectionMarkers (s @ w) = x # stripSectionMarkers (xs @ w)"
          using npA npC Cons by (subst stripSectionMarkers_unfold) (simp only: if_False, simp)
        moreover have "stripSectionMarkers s = x # stripSectionMarkers xs"
          using nA' nC' Cons by (subst stripSectionMarkers_unfold) (simp only: if_False, simp)
        ultimately show ?thesis using ih by simp
      qed
    qed
  qed
qed

lemma trim_append_spaces:
  assumes "\<forall>c\<in>set w. is_space c"
  shows "trim (s @ w) = trim s"
proof (cases "\<forall>c\<in>set s. is_space c")
  case True
  with assms have a: "dropWhile is_space (s @ w) = []" by simp
  from True have b: "dropWhile is_space s = []" by simp
  show ?thesis unfolding trim_def a b by simp
next
  case False
  then have "dropWhile is_space (s @ w) = dropWhile is_space s @ w"
    by (meson dropWhile_append1)
  moreover have "dropWhile is_space (rev w @ y) = dropWhile is_space y" for y
    using assms by (intro dropWhile_all) simp
  ultimately show ?thesis by (simp add: trim_def)
qed

lemma trim_prepend_spaces:
  "\<forall>c\<in>set w. is_space c \<Longrightarrow> trim (w @ s) = trim s"
  by (simp add: trim_def dropWhile_all)

lemma trim_split:
  "\<exists>w1 w2. s = w1 @ trim s @ w2 \<and> (\<forall>c\<in>set w1. is_space c) \<and> (\<forall>c\<in>set w2. is_space c)"
proof -
  let ?d = "dropWhile is_space s"
  have "s = takeWhile is_space s @ ?d" by simp
  moreover have "?d = trim s @ rev (takeWhile is_space (rev ?d))"
    unfolding trim_def by (rule rtrim_split)
  ultimately have "s = takeWhile is_space s @ trim s @ rev (takeWhile is_space (rev ?d))"
    by metis
  moreover have "\<forall>c\<in>set (takeWhile is_space s). is_space c" by (auto dest: set_takeWhileD)
  moreover have "\<forall>c\<in>set (rev (takeWhile is_space (rev ?d))). is_space c"
    by (auto dest: set_takeWhileD)
  ultimately show ?thesis by blast
qed

lemma trim_strip_trim: "trim (stripSectionMarkers (trim s)) = trim (stripSectionMarkers s)"
proof -
  obtain w1 w2 where s: "s = w1 @ trim s @ w2" and w1: "\<forall>c\<in>set w1. is_space c"
    and w2: "\<forall>c\<in>set w2. is_space c" using trim_split by blast
  have "stripSectionMarkers (w1 @ trim s @ w2) = w1 @ stripSectionMarkers (trim s) @ w2"
    by (simp add: strip_markers_lead [OF w1] strip_markers_trail [OF w2])
  then have "trim (stripSectionMarkers (w1 @ trim s @ w2)) = trim (stripSectionMarkers (trim s))"
    using trim_prepend_spaces [OF w1] trim_append_spaces [OF w2] by simp
  with s show ?thesis by simp
qed

section \<open>More on the two replacements of \<^verbatim>\<open>postProcessCode\<close>\<close>











lemma collapse_fixed_prefix:
  "collapseBlankRuns A = A \<Longrightarrow> prefix A (collapseBlankRuns (A @ B))"
proof (induction A)
  case Nil
  then show ?case by simp
next
  case (Cons x xs)
  have nb: "\<not> blank_run (x # xs)"
    using not_blank_run_collapse [of "x # xs"] Cons.prems by simp
  with Cons.prems have fx: "collapseBlankRuns xs = xs" by (simp add: collapse_Cons)
  show ?case
  proof (cases "blank_run (x # xs @ B)")
    case False
    with Cons.IH [OF fx] show ?thesis by (simp add: collapse_Cons)
  next
    case True
    then have x: "x = nl" by (auto dest: blank_run_Cons)
    have allnl: "\<forall>c\<in>set xs. c = nl"
    proof (rule ccontr)
      assume "\<not> (\<forall>c\<in>set xs. c = nl)"
      then have "takeWhile (\<lambda>c. c = nl) (xs @ B) = takeWhile (\<lambda>c. c = nl) xs"
        by (meson takeWhile_append1)
      with True nb x show False by (simp add: blank_run_def)
    qed
    then have tw: "takeWhile (\<lambda>c. c = nl) xs = xs" by (simp add: takeWhile_eq_all_conv)
    with nb x have "length xs < 2" by (simp add: blank_run_def)
    with allnl have "xs = [] \<or> xs = [nl]"
      by (cases xs; cases "tl xs") auto
    with True x show ?thesis by (auto simp: collapse_run)
  qed
qed






section \<open>Refinement: the failure branch\<close>





















lemma refine_failure_code:
  "currentCode @ ''\<newline>\<newline>// ERROR: AI failed to generate the updated code block. Please try refining again.'' =
   currentCode @ nl # nl # failure_marker_line"
  by (simp add: failure_marker_line_def)


section \<open>Extraction: the fallback and the sentinel\<close>

text \<open>
  C7.  When the fence expression does not match the response text and the text contains
  the version marker, with \<open>pre\<close> the text before the first occurrence of the marker (no
  occurrence starts earlier), extraction returns as code the text from offset
  \<open>length pre\<close> to the end and as explanation the text before that offset.
\<close>

theorem fallback_extraction:
  assumes "regex_match True codeBlockRegex text = None"
    and "text = pre @ ''//@version='' @ post"
    and "\<forall>pre' post'. text = pre' @ ''//@version='' @ post' \<longrightarrow> length pre \<le> length pre'"
  shows "generate_extract text =
           \<lparr>code = drop (length pre) text, explanation = take (length pre) text\<rparr>"
proof -
  from assms(3) have "\<And>a' b'. text = a' @ ''//@version='' @ b' \<Longrightarrow> length pre \<le> length a'"
    by blast
  from indexOf_first [OF assms(2) this] assms(1) show ?thesis
    by (simp add: generate_extract_def)
qed

theorem fallback_extraction_witness:
  "generate_extract ''Here: //@version=5 plot(close)'' =
     \<lparr>code = ''//@version=5 plot(close)'', explanation = ''Here: ''\<rparr>"
proof -
  let ?text = "''Here: //@version=5 plot(close)''"
  have nofence: "regex_match True codeBlockRegex ?text = None" by code_simp
  have shape: "?text = ''Here: '' @ ''//@version='' @ ''5 plot(close)''" by simp
  have idx: "indexOf ''//@version='' ?text = Some 6" by code_simp
  have least: "\<forall>pre' post'. ?text = pre' @ ''//@version='' @ post' \<longrightarrow>
                 length ''Here: '' \<le> length pre'"
  proof (intro allI impI)
    fix pre' post'
    assume "?text = pre' @ ''//@version='' @ post'"
    from indexOf_least [OF idx this] show "length ''Here: '' \<le> length pre'" by simp
  qed
  from fallback_extraction [OF nofence shape least] show ?thesis by simp
qed

text \<open>
  C8.  When the fence expression does not match the response text and the text does not
  contain the version marker, extraction in the generation path returns the fixed
  sentinel as code, which is not the empty string, and the whole response text as
  explanation.
\<close>

theorem extraction_sentinel:
  assumes "regex_match True codeBlockRegex text = None"
    and "indexOf ''//@version='' text = None"
  shows "generate_extract text =
           \<lparr>code = ''// Error: Could not parse code block.'', explanation = text\<rparr> \<and>
         code (generate_extract text) \<noteq> []"
  using assms by (simp add: generate_extract_def)

theorem extraction_sentinel_witness:
  "generate_extract ''I cannot help with that.'' =
     \<lparr>code = ''// Error: Could not parse code block.'',
      explanation = ''I cannot help with that.''\<rparr>"
proof -
  have a: "regex_match True codeBlockRegex ''I cannot help with that.'' = None" by code_simp
  have b: "indexOf ''//@version='' ''I cannot help with that.'' = None" by code_simp
  from extraction_sentinel [OF a b] show ?thesis by simp
qed

section \<open>Prompt assembly: the order of the policy fragments\<close>

lemma INSTITUTIONAL_GUIDELINES_nonempty: "INSTITUTIONAL_GUIDELINES \<noteq> []"
  by (simp add: INSTITUTIONAL_GUIDELINES_def)

lemma QUALITY_CHECKS_nonempty: "QUALITY_CHECKS \<noteq> []"
  by (simp add: QUALITY_CHECKS_def)

lemma SYNTAX_SAFETY_GUARD_nonempty: "SYNTAX_SAFETY_GUARD \<noteq> []"
  by (simp add: SYNTAX_SAFETY_GUARD_def)

lemma generate_customContextPrompt_empty:
  "(generate_customContextPrompt params = []) = (\<not> supplied params)"
  by (simp add: generate_customContextPrompt_def supplied_def generate_contextBlock_def
      split: option.splits)

lemma refine_customContextPrompt_empty:
  "(refine_customContextPrompt params = []) = (\<not> supplied params)"
  by (simp add: refine_customContextPrompt_def supplied_def refine_contextBlock_def
      split: option.splits)

lemma generate_policy_order:
  "policy_order (generate_systemParts params) =
     (if isExpertMode params then [DomainGuidelines] else []) @
     [QualityChecklist, SyntaxSafety, ArchitectureRules] @
     (if supplied params then [SupplementalContext] else [])"
  by (simp add: policy_order_def generate_systemParts_def
      INSTITUTIONAL_GUIDELINES_nonempty QUALITY_CHECKS_nonempty SYNTAX_SAFETY_GUARD_nonempty
      generate_customContextPrompt_empty)

lemma refine_policy_order:
  "policy_order (refine_systemParts params) =
     [QualityChecklist] @
     (if isExpertMode params then [DomainGuidelines] else []) @
     [SyntaxSafety] @
     (if supplied params then [SupplementalContext] else []) @
     [RefinementRules]"
  by (simp add: policy_order_def refine_systemParts_def
      INSTITUTIONAL_GUIDELINES_nonempty QUALITY_CHECKS_nonempty SYNTAX_SAFETY_GUARD_nonempty
      refine_customContextPrompt_empty)

lemma example_expert: "isExpertMode example_params"
  by code_simp

lemma example_unsupplied: "\<not> supplied example_params"
  by (simp add: supplied_def example_params_def)

text \<open>
  C3, as stated, fails for the refinement prompt: for a request in expert mode without
  supplemental context its policy fragments are not in the order domain guidelines,
  quality checklist, syntax-safety rules, architecture rules.
\<close>

theorem refine_fragment_order_counterexample:
  "policy_order (refine_systemParts example_params) \<noteq>
     (if isExpertMode example_params then [DomainGuidelines] else []) @
     [QualityChecklist, SyntaxSafety, ArchitectureRules] @
     (if supplied example_params then [SupplementalContext] else [])"
  by (simp add: refine_policy_order example_expert example_unsupplied)

text \<open>
  C3, amended.  In the generation prompt the policy fragments appear in the order: domain
  guidelines (present iff expert mode), quality checklist, syntax-safety rules,
  architecture rules, supplemental-context block (present iff supplemental context was
  provided).  In the refinement prompt they appear in the order: quality checklist,
  domain guidelines (present iff expert mode), syntax-safety rules, supplemental-context
  block (present iff provided), rules for refinement; it has no architecture rules.
\<close>

theorem policy_fragment_order:
  "policy_order (generate_systemParts params) =
     (if isExpertMode params then [DomainGuidelines] else []) @
     [QualityChecklist, SyntaxSafety, ArchitectureRules] @
     (if supplied params then [SupplementalContext] else []) \<and>
   policy_order (refine_systemParts params) =
     [QualityChecklist] @
     (if isExpertMode params then [DomainGuidelines] else []) @
     [SyntaxSafety] @
     (if supplied params then [SupplementalContext] else []) @
     [RefinementRules]"
  by (simp only: generate_policy_order refine_policy_order)

theorem policy_fragment_order_witness:
  "policy_order (generate_systemParts example_params) =
     [DomainGuidelines, QualityChecklist, SyntaxSafety, ArchitectureRules] \<and>
   policy_order (refine_systemParts example_params) =
     [QualityChecklist, DomainGuidelines, SyntaxSafety, RefinementRules]"
  using policy_fragment_order [of example_params]
  by (simp add: example_expert example_unsupplied)

section \<open>The progress callback\<close>

lemma generate_try_quiet:
  assumes "\<And>status. notify cb status = None"
  shows "generate_try ai params cb = generate_try ai params None"
proof -
  have "notify None status = None" for status by (simp add: notify_def)
  with assms show ?thesis by (simp add: generate_try_def split: sum.splits)
qed

text \<open>
  C4, as stated, fails: with a service that answers and a callback that throws at the
  notification \<^verbatim>\<open>GENERATING_CODE\<close>, the run does not return what it returns with a callback
  that never throws.
\<close>

theorem callback_best_effort_counterexample:
  "generatePineScript fenced_service example_params
     (Some (failing_callback ''GENERATING_CODE'')) \<noteq>
   generatePineScript fenced_service example_params (Some quiet_callback)"
  by (simp add: generatePineScript_def generate_try_def notify_def failing_callback_def
      quiet_callback_def fenced_service_def Let_def)

text \<open>
  C4, amended.  A throw of the progress callback aborts the run.  If the callback throws
  at the first notification (\<^verbatim>\<open>NORMALIZING_REQUEST\<close>), generatePineScript rejects with the
  thrown value itself; if it returns there and throws at one of the later notifications,
  generatePineScript rejects with the fixed pipeline error.  A callback that never throws
  has no influence on the result: the run returns what it returns without a callback.
\<close>

theorem callback_failure_aborts:
  "(notify cb ''NORMALIZING_REQUEST'' = Some e \<longrightarrow> generatePineScript ai params cb = Inl e) \<and>
   (notify cb ''NORMALIZING_REQUEST'' = None \<and>
      (notify cb ''OPTIMIZING_LOGIC'' \<noteq> None \<or> notify cb ''GENERATING_CODE'' \<noteq> None \<or>
       notify cb ''VALIDATING_OUTPUT'' \<noteq> None) \<longrightarrow>
      generatePineScript ai params cb =
        Inl (Error ''Pipeline Error: Failed to generate valid script.'')) \<and>
   ((\<forall>status. notify cb status = None) \<longrightarrow>
      generatePineScript ai params cb = generatePineScript ai params None)"
proof (intro conjI impI)
  assume "notify cb ''NORMALIZING_REQUEST'' = Some e"
  then show "generatePineScript ai params cb = Inl e"
    by (simp add: generatePineScript_def)
next
  assume a: "notify cb ''NORMALIZING_REQUEST'' = None \<and>
      (notify cb ''OPTIMIZING_LOGIC'' \<noteq> None \<or> notify cb ''GENERATING_CODE'' \<noteq> None \<or>
       notify cb ''VALIDATING_OUTPUT'' \<noteq> None)"
  then have "\<exists>f. generate_try ai params cb = Inl f"
    by (auto simp: generate_try_def split: option.splits sum.splits)
  with a show "generatePineScript ai params cb =
        Inl (Error ''Pipeline Error: Failed to generate valid script.'')"
    by (auto simp: generatePineScript_def)
next
  assume a: "\<forall>status. notify cb status = None"
  then have "generate_try ai params cb = generate_try ai params None"
    by (simp add: generate_try_quiet)
  with a show "generatePineScript ai params cb = generatePineScript ai params None"
    by (simp add: generatePineScript_def notify_def)
qed

theorem callback_failure_aborts_witness:
  "generatePineScript fenced_service example_params
     (Some (failing_callback ''NORMALIZING_REQUEST'')) = Inl (Thrown ''render failed'') \<and>
   generatePineScript fenced_service example_params
     (Some (failing_callback ''VALIDATING_OUTPUT'')) =
     Inl (Error ''Pipeline Error: Failed to generate valid script.'') \<and>
   generatePineScript fenced_service example_params (Some quiet_callback) =
     generatePineScript fenced_service example_params None"
  using
    callback_failure_aborts [of "Some (failing_callback ''NORMALIZING_REQUEST'')"
      "Thrown ''render failed''" fenced_service example_params]
    callback_failure_aborts [of "Some (failing_callback ''VALIDATING_OUTPUT'')"
      "Thrown ''render failed''" fenced_service example_params]
    callback_failure_aborts [of "Some quiet_callback"
      "Thrown ''render failed''" fenced_service example_params]
  by (simp add: notify_def failing_callback_def quiet_callback_def)

section \<open>enhancePrompt and its model argument\<close>

text \<open>
  C10.  For every input text and any two model selectors, enhancePrompt issues the same
  request, whose model is the fixed \<^verbatim>\<open>gemini-3-pro-preview\<close>, and, the service being the
  same, returns the same result.
\<close>

theorem enhancePrompt_ignores_model:
  "enhance_request inputText m1 = enhance_request inputText m2 \<and>
   req_model (enhance_request inputText m1) = ''gemini-3-pro-preview'' \<and>
   enhancePrompt ai inputText m1 = enhancePrompt ai inputText m2"
  by (simp add: enhance_request_def enhancePrompt_def)

section \<open>Parsing the document analysis\<close>

text \<open>
  C9, as stated, fails: a \<^verbatim>\<open>scriptType\<close> of the wrong type that is truthy (the number 42)
  is kept, not replaced by the default; and the notice substituted for a missing
  \<^verbatim>\<open>generatedPrompt\<close> is not the notice returned for invalid JSON.
\<close>

theorem structured_defaults_counterexample:
  \<open>r_scriptType (parseAnalysis example_parser ''{"scriptType": 42}'') = JNum 42 \<and>
   r_generatedPrompt (parseAnalysis example_parser ''not json'') \<noteq>
   r_generatedPrompt (parseAnalysis example_parser ''{}'')\<close>
  by (simp add: parseAnalysis_def example_parser_def fallback_validation_def
      default_if_falsy_def)

text \<open>
  C9, amended.  Parsing never propagates an error: once the service has answered,
  extractStrategyFromPdf returns a result.  If the text is not valid JSON, or is valid
  JSON for \<^verbatim>\<open>null\<close>, a number, a string or a boolean, the result is exactly
  \<open>parse_error_result\<close> (indicator, overlay true, the notice "Error parsing PDF analysis
  ...").  If the text is a JSON object: a \<^verbatim>\<open>scriptType\<close> that is missing or falsy becomes
  "indicator" and one that is a non-empty string is kept; an \<^verbatim>\<open>overlay\<close> that is not a
  boolean becomes true and a boolean is kept; a \<^verbatim>\<open>generatedPrompt\<close> that is missing or
  falsy becomes the notice "Failed to extract prompt from PDF." and one that is a
  non-empty string is kept.
\<close>

theorem structured_parse_defaults:
  "(JSON_parse text = None \<longrightarrow> parseAnalysis JSON_parse text = parse_error_result) \<and>
   (JSON_parse text = Some v \<and> (\<forall>ps. v \<noteq> JObj ps) \<and> (\<forall>xs. v \<noteq> JArr xs) \<longrightarrow>
      parseAnalysis JSON_parse text = parse_error_result) \<and>
   (JSON_parse text = Some (JObj ps) \<longrightarrow>
      (map_of ps ''scriptType'' = None \<or> (\<exists>j. map_of ps ''scriptType'' = Some j \<and> \<not> truthy j) \<longrightarrow>
         r_scriptType (parseAnalysis JSON_parse text) = JStr ''indicator'') \<and>
      (\<forall>s. map_of ps ''scriptType'' = Some (JStr s) \<and> s \<noteq> [] \<longrightarrow>
         r_scriptType (parseAnalysis JSON_parse text) = JStr s) \<and>
      ((\<forall>b. map_of ps ''overlay'' \<noteq> Some (JBool b)) \<longrightarrow>
         r_overlay (parseAnalysis JSON_parse text) = JBool True) \<and>
      (\<forall>b. map_of ps ''overlay'' = Some (JBool b) \<longrightarrow>
         r_overlay (parseAnalysis JSON_parse text) = JBool b) \<and>
      (map_of ps ''generatedPrompt'' = None \<or>
         (\<exists>j. map_of ps ''generatedPrompt'' = Some j \<and> \<not> truthy j) \<longrightarrow>
         r_generatedPrompt (parseAnalysis JSON_parse text) =
           JStr ''Failed to extract prompt from PDF.'') \<and>
      (\<forall>s. map_of ps ''generatedPrompt'' = Some (JStr s) \<and> s \<noteq> [] \<longrightarrow>
         r_generatedPrompt (parseAnalysis JSON_parse text) = JStr s)) \<and>
   (ai (pdf_request pdfBase64) = Inr t \<longrightarrow>
      extractStrategyFromPdf ai JSON_parse pdfBase64 fileName =
        Inr (parseAnalysis JSON_parse (text_or ''{}'' t)))"
proof (intro conjI impI allI)
  assume "JSON_parse text = None"
  then show "parseAnalysis JSON_parse text = parse_error_result"
    by (simp add: parseAnalysis_def parse_error_result_def)
next
  assume "JSON_parse text = Some v \<and> (\<forall>ps. v \<noteq> JObj ps) \<and> (\<forall>xs. v \<noteq> JArr xs)"
  then show "parseAnalysis JSON_parse text = parse_error_result"
    by (cases v) (simp_all add: parseAnalysis_def parse_error_result_def)
next
  assume "ai (pdf_request pdfBase64) = Inr t"
  then show "extractStrategyFromPdf ai JSON_parse pdfBase64 fileName =
        Inr (parseAnalysis JSON_parse (text_or ''{}'' t))"
    by (simp add: extractStrategyFromPdf_def)
qed (auto simp: parseAnalysis_def fallback_validation_def default_if_falsy_def
      default_if_not_boolean_def split: option.splits json.splits)

theorem structured_parse_defaults_witness:
  \<open>parseAnalysis example_parser ''not json'' = parse_error_result \<and>
   parseAnalysis example_parser ''null'' = parse_error_result \<and>
   parseAnalysis example_parser ''{"overlay": false, "generatedPrompt": "Plot RSI"}'' =
     \<lparr>r_scriptType = JStr ''indicator'', r_overlay = JBool False,
      r_generatedPrompt = JStr ''Plot RSI''\<rparr> \<and>
   extractStrategyFromPdf json_service example_parser ''JVBERi0='' ''rules.pdf'' =
     Inr \<lparr>r_scriptType = JStr ''indicator'', r_overlay = JBool True,
          r_generatedPrompt = JStr ''Failed to extract prompt from PDF.''\<rparr>\<close>
proof -
  let ?t = \<open>''{"overlay": false, "generatedPrompt": "Plot RSI"}''\<close>
  let ?ps = "[(''overlay'', JBool False), (''generatedPrompt'', JStr ''Plot RSI'')]"
  have p1: "example_parser ''not json'' = None"
    and p2: "example_parser ''null'' = Some JNull"
    and p3: "example_parser ?t = Some (JObj ?ps)"
    and p4: "example_parser ''{}'' = Some (JObj [])"
    by (simp_all add: example_parser_def)
  have s: "json_service (pdf_request ''JVBERi0='') = Inr (Some ''{}'')"
    by (simp add: json_service_def)
  note a = structured_parse_defaults [of example_parser "''not json''" JNull "[]" json_service
      "''JVBERi0=''" "Some ''{}''" "''rules.pdf''"]
  note b = structured_parse_defaults [of example_parser "''null''" JNull "[]" json_service
      "''JVBERi0=''" "Some ''{}''" "''rules.pdf''"]
  note c = structured_parse_defaults [of example_parser ?t JNull ?ps json_service
      "''JVBERi0=''" "Some ''{}''" "''rules.pdf''"]
  note d = structured_parse_defaults [of example_parser "''{}''" JNull "[]" json_service
      "''JVBERi0=''" "Some ''{}''" "''rules.pdf''"]
  have 1: "parseAnalysis example_parser ''not json'' = parse_error_result"
    using a p1 by simp
  have 2: "parseAnalysis example_parser ''null'' = parse_error_result"
    using b p2 by simp
  have 3: "parseAnalysis example_parser ?t =
     \<lparr>r_scriptType = JStr ''indicator'', r_overlay = JBool False,
      r_generatedPrompt = JStr ''Plot RSI''\<rparr>"
    using c p3 by (intro PdfAnalysisResult.equality) auto
  have 4: "parseAnalysis example_parser ''{}'' =
     \<lparr>r_scriptType = JStr ''indicator'', r_overlay = JBool True,
          r_generatedPrompt = JStr ''Failed to extract prompt from PDF.''\<rparr>"
    using d p4 by (intro PdfAnalysisResult.equality) auto
  have 5: "extractStrategyFromPdf json_service example_parser ''JVBERi0='' ''rules.pdf'' =
     Inr (parseAnalysis example_parser ''{}'')"
    using d s by (simp add: text_or_def)
  from 1 2 3 4 5 show ?thesis by simp
qed

section \<open>Normalization: the version line\<close>

text \<open>
  C5.  The removal step of postProcessCode carries the comment ``Remove existing version
  tags to avoid duplicates'', and the claim asks for exactly one version declaration in the
  output.  The global replacement removes its matches in one pass from left to right and
  does not look at its result again, so a version declaration that is split around another
  one is put together by the removal of the inner one.  At the input below the output is
  the prepended version line followed by a second version declaration: the code misses what
  its comment and the claim say.
\<close>

theorem split_version_tag_survives:
  "postProcessCode ''//@ver//@version=5sion=5\<newline>plot(close)'' ''v6'' =
     ''//@version=6\<newline>//@version=5\<newline>plot(close)'' \<and>
   decl_count (postProcessCode ''//@ver//@version=5sion=5\<newline>plot(close)'' ''v6'') = 2"
  by code_simp

text \<open>
  The other half of the property holds at every input: the output of postProcessCode begins
  with the line \<^verbatim>\<open>//@version=\<close> followed by the digits of the version, and this line is
  its first line.
\<close>

lemma version_line_first:
  "prefix (versionTagOf v @ ''\<newline>'') (postProcessCode x v) \<and>
   takeWhile (\<lambda>c. c \<noteq> CHR 0x0A) (postProcessCode x v) = versionTagOf v"
proof (intro conjI)
  obtain r where r: "collapseBlankRuns (nl # stripVersionTags (unfence x)) = nl # r"
    using collapse_starts_nl by blast
  then have shape: "postProcessCode x v = versionTagOf v @ nl # r"
    by (simp add: postProcessCode_shape)
  then show "prefix (versionTagOf v @ ''\<newline>'') (postProcessCode x v)"
    by (simp add: prefix_def)
  from shape versionTagOf_no_nl [of v]
  show "takeWhile (\<lambda>c. c \<noteq> CHR 0x0A) (postProcessCode x v) = versionTagOf v"
    by (simp add: takeWhile_append2)
qed

section \<open>Normalization: idempotence\<close>

text \<open>
  C1, as stated, fails: a text that begins with a newline is normalized to a version line,
  an empty line and the text, and normalizing that again removes the empty line.
\<close>

theorem idempotence_counterexample:
  "postProcessCode (postProcessCode ''\<newline>plot(close)'' ''v6'') ''v6'' \<noteq>
   postProcessCode ''\<newline>plot(close)'' ''v6''"
  by code_simp

text \<open>
  C1, amended.  postProcessCode(postProcessCode(x, v), v) equals postProcessCode(x, v)
  whenever the version has a digit, the output of the first pass contains no fenced block,
  and the text left in the first pass by the extraction and the removal of version
  declarations does not begin with whitespace and holds no version declaration.  This
  covers a text that already has a correctly placed version line, duplicate version lines
  or irregular runs of blank lines.
\<close>

theorem postProcessCode_idempotent:
  assumes "versionDigits v \<noteq> []"
    and "regex_match True codeBlockRegex (postProcessCode x v) = None"
    and "dropWhile is_space (stripVersionTags (unfence x)) = stripVersionTags (unfence x)"
    and "decl_count (stripVersionTags (unfence x)) = 0"
  shows "postProcessCode (postProcessCode x v) v = postProcessCode x v"
proof -
  let ?body = "stripVersionTags (unfence x)"
  let ?cb = "collapseBlankRuns ?body"
  have sp: "is_space nl" by (simp add: is_space_def)
  have lead: "dropWhile is_space ?cb = ?cb" using assms(3) by (rule no_lead_collapse)
  have nonl: "\<not> (\<exists>r. ?body = nl # r)"
    using assms(3) sp by (metis dropWhile_eq_Cons_conv)
  then have nb: "\<not> blank_run (nl # ?body)"
    by (cases ?body) (auto simp: blank_run_def)
  from nonl have "\<not> (\<exists>r. ?cb = nl # r)"
    using starts_nl_collapse [of ?body] by blast
  then have nb': "\<not> blank_run (nl # ?cb)"
    by (cases ?cb) (auto simp: blank_run_def)
  have y: "postProcessCode x v = versionTagOf v @ nl # ?cb"
    using nb by (simp add: postProcessCode_shape collapse_Cons)
  have "unfence (postProcessCode x v) = postProcessCode x v"
    using assms(2) by (simp add: unfence_def)
  moreover have "stripVersionTags (versionTagOf v @ nl # ?cb) = ?cb"
  proof -
    have "decl_count ?cb = 0" using assms(4) by (simp add: decl_count_collapse)
    then have "stripVersionTags ?cb = ?cb" by (rule stripVersionTags_clean)
    with after_decl_tag [OF assms(1), of ?cb] lead show ?thesis
      by (subst stripVersionTags_unfold) simp
  qed
  ultimately have "postProcessCode (postProcessCode x v) v =
      versionTagOf v @ collapseBlankRuns (nl # ?cb)"
    using y by (simp add: postProcessCode_shape)
  also have "\<dots> = versionTagOf v @ nl # ?cb"
    using nb' by (simp add: collapse_Cons collapse_idem)
  finally show ?thesis using y by simp
qed

theorem postProcessCode_idempotent_witness:
  \<open>postProcessCode
     (postProcessCode
        ''//@version=6\<newline>//@version=6\<newline>indicator("X")\<newline>\<newline>\<newline>\<newline>plot(close)'' ''v6'') ''v6'' =
   postProcessCode
     ''//@version=6\<newline>//@version=6\<newline>indicator("X")\<newline>\<newline>\<newline>\<newline>plot(close)'' ''v6''\<close>
proof -
  let ?x = \<open>''//@version=6\<newline>//@version=6\<newline>indicator("X")\<newline>\<newline>\<newline>\<newline>plot(close)''\<close>
  have a: "versionDigits ''v6'' \<noteq> []" by code_simp
  have b: "regex_match True codeBlockRegex (postProcessCode ?x ''v6'') = None" by code_simp
  have c: "dropWhile is_space (stripVersionTags (unfence ?x)) = stripVersionTags (unfence ?x)"
    by code_simp
  have d: "decl_count (stripVersionTags (unfence ?x)) = 0" by code_simp
  from postProcessCode_idempotent [OF a b c d] show ?thesis .
qed

section \<open>Extraction from a fenced block\<close>

text \<open>
  C6, as stated, fails: in a block without language hint whose interior begins with the
  letters \<^verbatim>\<open>pine\<close>, these letters are taken for a hint and dropped from the code.
\<close>

theorem fenced_extraction_counterexample:
  "code (generate_extract ([] @ ''```'' @ ''pineapple = 1'' @ ''```'' @ [])) \<noteq>
   trim ''pineapple = 1''"
  by code_simp

text \<open>
  C6, amended.  Let the response text be E1, a triple backtick, I, a triple backtick and
  E2, where no triple backtick starts inside E1 (not even one that runs into the opening
  fence) and none starts inside I (not even one that runs into the closing fence).  Then
  extraction returns as code the trimmed text of I after its longest prefix among
  \<^verbatim>\<open>pinescript\<close> and \<^verbatim>\<open>pine\<close> (letters of any case, followed by whitespace or not) has been
  dropped, and as explanation the trimmed text of E1 followed by E2 with the markers
  \<^verbatim>\<open>[ANALYSIS]\<close> and \<^verbatim>\<open>[CODE]\<close> removed.
\<close>

theorem fenced_extraction:
  assumes "text = E1 @ ''```'' @ I @ ''```'' @ E2"
    and "\<not> sublist ''```'' (E1 @ ''``'')"
    and "\<not> sublist ''```'' (I @ ''``'')"
  shows "generate_extract text =
           \<lparr>code = trim (drop (hint_length I) I),
            explanation = trim (stripSectionMarkers (E1 @ E2))\<rparr>"
proof -
  let ?whole = "''```'' @ I @ ''```''"
  have nostart: "\<not> prefix ''```'' (drop j text)" if "j < length E1" for j
    using fence_before [OF that, of "I @ ''```'' @ E2"] assms(1,2) by auto
  have before: "\<forall>j<length E1. match_here True codeBlockRegex (drop j text) = None"
  proof (intro allI impI)
    fix j assume "j < length E1"
    from nostart [OF this] have "\<not> (\<exists>b d. drop j text = ''```'' @ b @ ''```'' @ d)"
      by (auto simp: prefix_def)
    then show "match_here True codeBlockRegex (drop j text) = None"
      using codeBlock_here_None_iff [of "drop j text"] by blast
  qed
  have "drop (length E1) text = ''```'' @ I @ ''```'' @ E2" using assms(1) by simp
  with codeBlock_here_fenced [OF assms(3), of E2]
  have here: "match_here True codeBlockRegex (drop (length E1) text) =
      Some \<lparr>m_index = 0, m_whole = ?whole,
            m_group = Some (trim (drop (hint_length I) I)), m_rest = E2\<rparr>" by simp
  have "length E1 \<le> length text" using assms(1) by simp
  from regex_match_at [OF this here before] obtain m where
    m: "regex_match True codeBlockRegex text = Some m" "m_whole m = ?whole"
       "m_group m = Some (trim (drop (hint_length I) I))" by auto
  have shape: "text = E1 @ ?whole @ E2" using assms(1) by simp
  have "indexOf ?whole text = Some (length E1)"
  proof (rule indexOf_first [OF shape])
    fix a' b' assume t: "text = a' @ ?whole @ b'"
    show "length E1 \<le> length a'"
    proof (rule ccontr)
      assume "\<not> length E1 \<le> length a'"
      then have "length a' < length E1" by simp
      from nostart [OF this] t show False by simp
    qed
  qed
  then have rf: "replace_first ?whole [] text =
      take (length E1) text @ drop (length E1 + length ?whole) text"
    by (simp only: replace_first_def option.case append_Nil)
  have "text = (E1 @ ?whole) @ E2" using shape by simp
  then have "drop (length (E1 @ ?whole)) text = E2" by (metis append_eq_conv_conj)
  then have "drop (length E1 + length ?whole) text = E2" by (simp only: length_append)
  moreover have "take (length E1) text = E1" using shape by simp
  ultimately have "replace_first ?whole [] text = E1 @ E2" using rf by simp
  with m show ?thesis
    by (simp add: generate_extract_def group1_def fencedExplanation_def trim_strip_trim)
qed

theorem fenced_extraction_witness:
  \<open>generate_extract
     ''[ANALYSIS]\<newline>Uses RSI.\<newline>[CODE]\<newline>```pinescript\<newline>//@version=6\<newline>indicator("X")\<newline>```\<newline>Done.'' =
     \<lparr>code = ''//@version=6\<newline>indicator("X")'',
      explanation = ''Uses RSI.\<newline>\<newline>\<newline>Done.''\<rparr>\<close>
proof -
  let ?E1 = "''[ANALYSIS]\<newline>Uses RSI.\<newline>[CODE]\<newline>''"
  let ?I = \<open>''pinescript\<newline>//@version=6\<newline>indicator("X")\<newline>''\<close>
  let ?E2 = "''\<newline>Done.''"
  have a: \<open>''[ANALYSIS]\<newline>Uses RSI.\<newline>[CODE]\<newline>```pinescript\<newline>//@version=6\<newline>indicator("X")\<newline>```\<newline>Done.'' =
      ?E1 @ ''```'' @ ?I @ ''```'' @ ?E2\<close> by simp
  have b: "\<not> sublist ''```'' (?E1 @ ''``'')" by code_simp
  have c: "\<not> sublist ''```'' (?I @ ''``'')" by code_simp
  have d: \<open>trim (drop (hint_length ?I) ?I) = ''//@version=6\<newline>indicator("X")''\<close> by code_simp
  have e: "trim (stripSectionMarkers (?E1 @ ?E2)) = ''Uses RSI.\<newline>\<newline>\<newline>Done.''"
    by code_simp
  from fenced_extraction [OF a b c] show ?thesis unfolding d e .
qed

section \<open>Refinement: a failed turn stays visible\<close>




end
